theory Spec2Isabelle
  imports Complex_Main
begin

section \<open>The sympathetic string reverb (src/src/sympathetic.c)\<close>

text \<open>
  A shallow embedding of the LADSPA plugin \<^verbatim>\<open>sympathetic.c\<close>: a bank of at most
  eleven feedback comb filters, built from the tuning ports on activation and driven
  sample by sample by \<^verbatim>\<open>symp_run_effect\<close>.

  Conventions of the embedding.
  \<^item> \<^verbatim>\<open>float\<close> / \<^verbatim>\<open>LADSPA_Data\<close> is \<open>real\<close>. The arithmetic on samples and
    coefficients is exact, so its rounding, infinities and NaN are outside the model;
    the constants \<^verbatim>\<open>0.96f\<close>, \<^verbatim>\<open>0.039f\<close> and \<^verbatim>\<open>0.5f\<close> are the decimal fractions they
    denote. The one float result that decides an integer, the quotient
    \<^verbatim>\<open>sample_rate / tuning\<close> that becomes the delay length, is rounded as IEEE 754
    binary32 rounds it (to nearest, ties to even): \<open>f32_round\<close>.
  \<^item> \<^verbatim>\<open>int\<close> is \<open>int\<close>; the one place where a value can leave the range of a 32-bit
    \<^verbatim>\<open>int\<close>, the conversion of the quotient \<^verbatim>\<open>sample_rate / tuning\<close>, is a fault.
    \<^verbatim>\<open>unsigned long\<close> values (sample rate, sample count) and loop counters that start
    at zero and only count up are \<open>nat\<close>.
  \<^item> A pointer is an \<open>option\<close>: \<open>None\<close> is \<^verbatim>\<open>NULL\<close>. The array \<^verbatim>\<open>combs[COMB_COUNT]\<close>
    is a list of eleven such pointers, each comb struct held by value at its slot
    (every struct comes from its own \<^verbatim>\<open>malloc\<close>, so no two slots alias).
  \<^item> What C leaves undefined (dereferencing \<^verbatim>\<open>NULL\<close>, indexing outside an array, a
    float-to-int conversion out of range) is a value of type \<open>fault\<close>; every function
    that can reach one returns \<open>fault + result\<close>.
  \<^item> The memory behind the port pointers belongs to the host. It is the record
    \<open>ports\<close>; the three audio buffers are taken to be pairwise distinct arrays, and
    the functions return the output buffers they have written. A tuning port beyond
    the end of \<open>ctrl_tunings\<close> is a port that was never connected: its pointer is
    \<^verbatim>\<open>NULL\<close>.
  \<^item> \<^verbatim>\<open>malloc\<close> may fail: the functions that allocate take an oracle \<open>alloc\<close>, which
    tells for the \<open>k\<close>-th call of an activation whether it succeeds. A call that
    succeeds yields the samples asked for (the product \<^verbatim>\<open>size * sizeof(float)\<close> is taken
    not to wrap).
\<close>

subsection \<open>Data\<close>

datatype fault = Null_Dereference | Out_Of_Bounds | Float_To_Int_Range

definition COMB_COUNT :: nat where
  "COMB_COUNT = 11"

definition FEEDBACK_OFFSET :: real where
  "FEEDBACK_OFFSET = 0.96"

definition FEEDBACK_RANGE :: real where
  "FEEDBACK_RANGE = 0.039"

definition DAMPING_RANGE :: real where
  "DAMPING_RANGE = 0.5"

text \<open>\<^verbatim>\<open>struct comb\<close>; the field \<^verbatim>\<open>size\<close> is \<open>size_c\<close> here.\<close>

record comb =
  store :: real
  buffer :: "real list option"
  size_c :: int
  idx :: int

text \<open>\<^verbatim>\<open>struct symp\<close> without its port pointers.\<close>

record symp =
  run_adding_gain :: real
  combs :: "comb option list"
  num_combs :: int
  damping :: real
  damp1 :: real
  damp2 :: real
  feedback :: real
  scaled_feedback :: real
  sample_rate :: nat

text \<open>The host memory that the port pointers of \<^verbatim>\<open>struct symp\<close> refer to.\<close>

record ports =
  ctrl_tunings :: "real list"
  ctrl_feedback :: real
  ctrl_damping :: real
  ctrl_gain_input :: real
  ctrl_wet_left :: real
  ctrl_wet_right :: real
  audio_input :: "real list"
  audio_output1 :: "real list"
  audio_output2 :: "real list"

subsection \<open>Instantiation, activation and deactivation\<close>

text \<open>
  \<^verbatim>\<open>symp_instantiate\<close>: the struct is zeroed by \<^verbatim>\<open>memset\<close>, then the sample rate is
  stored and \<^verbatim>\<open>damp2\<close> is assigned twice (0, then 1). \<open>ok\<close> is the outcome of the
  \<^verbatim>\<open>malloc\<close>.
\<close>

definition symp_instantiate :: "bool \<Rightarrow> nat \<Rightarrow> symp option" where
  "symp_instantiate ok rate =
     (if \<not> ok then None
      else Some \<lparr>run_adding_gain = 0, combs = replicate COMB_COUNT None, num_combs = 0,
                 damping = 0, damp1 = 0, damp2 = 1, feedback = 0, scaled_feedback = 0,
                 sample_rate = rate\<rparr>)"

text \<open>
  Rounding to binary32. \<open>round_even\<close> rounds to the nearest integer, a tie to the even
  one. \<open>f32_exponent\<close> finds the exponent \<open>e\<close> of a magnitude, \<open>2 ^ e \<le> x < 2 ^ (e + 1)\<close>,
  between the least exponent \<open>-126\<close> (below it the numbers are subnormal) and the
  greatest \<open>127\<close>, by halving or doubling. A binary32 number of exponent \<open>e\<close> is a
  multiple of \<open>2 ^ (e - 23)\<close>, so \<open>f32_round\<close> rounds to the nearest such multiple.
  Magnitudes beyond the largest binary32 number, which the format rounds to infinity,
  stay finite here; they are far outside the range of \<^verbatim>\<open>int\<close>.
\<close>

definition round_even :: "real \<Rightarrow> int" where
  "round_even y =
     (let n = \<lfloor>y\<rfloor>; r = y - of_int n
      in if r < 1 / 2 then n else if 1 / 2 < r then n + 1 else if even n then n else n + 1)"

function exponent_up :: "real \<Rightarrow> int \<Rightarrow> int" where
  "exponent_up x e = (if 2 \<le> x \<and> e < 127 then exponent_up (x / 2) (e + 1) else e)"
  by pat_completeness auto
termination
  by (relation "measure (\<lambda>(x, e). nat (127 - e))") auto

function exponent_down :: "real \<Rightarrow> int \<Rightarrow> int" where
  "exponent_down x e = (if x < 1 \<and> - 126 < e then exponent_down (x * 2) (e - 1) else e)"
  by pat_completeness auto
termination
  by (relation "measure (\<lambda>(x, e). nat (e + 126))") auto

declare exponent_up.simps [simp del] exponent_down.simps [simp del]

definition f32_exponent :: "real \<Rightarrow> int" where
  "f32_exponent x = (if 1 \<le> x then exponent_up x 0 else exponent_down x 0)"

definition f32_round :: "real \<Rightarrow> real" where
  "f32_round x =
     (let u = 2 powi (f32_exponent \<bar>x\<bar> - 23) in of_int (round_even (x / u)) * u)"

text \<open>
  The conversion of an \<^verbatim>\<open>unsigned long\<close> to \<^verbatim>\<open>float\<close> and the division of two
  \<^verbatim>\<open>float\<close>s, as the expression \<^verbatim>\<open>symp->sample_rate / *symp->ctrl_tunings[i]\<close> makes them.
\<close>

definition f32_of_nat :: "nat \<Rightarrow> real" where
  "f32_of_nat n = f32_round (real n)"

definition f32_div :: "real \<Rightarrow> real \<Rightarrow> real" where
  "f32_div a b = f32_round (a / b)"

text \<open>
  The conversion of a \<^verbatim>\<open>float\<close> to \<^verbatim>\<open>int\<close>: the fractional part is discarded, and the
  behaviour is undefined when the result does not fit.
\<close>

definition float_to_int :: "real \<Rightarrow> fault + int" where
  "float_to_int x =
     (let t = (if 0 \<le> x then \<lfloor>x\<rfloor> else \<lceil>x\<rceil>)
      in if - (2 ^ 31) \<le> t \<and> t < 2 ^ 31 then Inr t else Inl Float_To_Int_Range)"

text \<open>
  The loop of \<^verbatim>\<open>symp_setup_combs\<close>, from slot \<open>i\<close> on; \<open>k\<close> counts the calls of
  \<^verbatim>\<open>malloc\<close> made so far. The result is the value returned (\<open>-1\<close> or \<open>1\<close>) and the state.
\<close>

function setup_loop :: "(nat \<Rightarrow> bool) \<Rightarrow> ports \<Rightarrow> nat \<Rightarrow> nat \<Rightarrow> symp \<Rightarrow> fault + (int \<times> symp)" where
  "setup_loop alloc h i k s =
     (if i < COMB_COUNT then
        (if length (ctrl_tunings h) \<le> i then Inl Null_Dereference
         else if ctrl_tunings h ! i \<le> 0 then setup_loop alloc h (i + 1) k s
         else
           (case float_to_int (f32_div (f32_of_nat (sample_rate s)) (ctrl_tunings h ! i)) of
              Inl f \<Rightarrow> Inl f
            | Inr sz \<Rightarrow>
                if \<not> alloc k then Inr (- 1, s)
                else if num_combs s < 0 \<or> int (length (combs s)) \<le> num_combs s
                then Inl Out_Of_Bounds
                else
                  let n = nat (num_combs s);
                      s1 = s\<lparr>combs := (combs s)[n := Some \<lparr>store = 0, buffer = None, size_c = 0, idx = 0\<rparr>],
                             num_combs := num_combs s + 1\<rparr>
                  in if \<not> alloc (k + 1) then Inr (- 1, s1)
                     else setup_loop alloc h (i + 1) (k + 2)
                            (s1\<lparr>combs := (combs s1)[n := Some \<lparr>store = 0,
                                   buffer = Some (replicate (nat sz) 0), size_c = sz, idx = 0\<rparr>]\<rparr>)))
      else Inr (1, s))"
  by pat_completeness auto
termination
  by (relation "measure (\<lambda>(alloc, h, i, k, s). COMB_COUNT - i)") auto

declare setup_loop.simps [simp del]

definition symp_setup_combs :: "(nat \<Rightarrow> bool) \<Rightarrow> ports \<Rightarrow> symp \<Rightarrow> fault + (int \<times> symp)" where
  "symp_setup_combs alloc h s = setup_loop alloc h 0 0 s"

text \<open>\<^verbatim>\<open>symp_cleanup_combs\<close>: the first \<^verbatim>\<open>num_combs\<close> slots are cleared.\<close>

function cleanup_loop :: "nat \<Rightarrow> symp \<Rightarrow> fault + symp" where
  "cleanup_loop i s =
     (if int i < num_combs s then
        (if length (combs s) \<le> i then Inl Out_Of_Bounds
         else cleanup_loop (i + 1) (s\<lparr>combs := (combs s)[i := None]\<rparr>))
      else Inr s)"
  by pat_completeness auto
termination
  by (relation "measure (\<lambda>(i, s). nat (num_combs s) - i)") auto

declare cleanup_loop.simps [simp del]

definition symp_cleanup_combs :: "symp \<Rightarrow> fault + symp" where
  "symp_cleanup_combs s =
     (case cleanup_loop 0 s of Inl f \<Rightarrow> Inl f | Inr s' \<Rightarrow> Inr (s'\<lparr>num_combs := 0\<rparr>))"

text \<open>
  \<^verbatim>\<open>symp_activate\<close> returns \<^verbatim>\<open>void\<close>: what its caller can observe is the state and the
  lines printed. The message is printed when \<^verbatim>\<open>!symp_setup_combs(symp)\<close> holds, that is,
  when the value returned is 0.
\<close>

definition symp_activate :: "(nat \<Rightarrow> bool) \<Rightarrow> ports \<Rightarrow> symp \<Rightarrow> fault + (string list \<times> symp)" where
  "symp_activate alloc h s =
     (case symp_setup_combs alloc h s of
        Inl f \<Rightarrow> Inl f
      | Inr (r, s') \<Rightarrow> Inr (if r = 0 then [''Out of memory!''] else [], s'))"

definition symp_deactivate :: "symp \<Rightarrow> fault + symp" where
  "symp_deactivate s = symp_cleanup_combs s"

definition symp_set_run_adding_gain :: "symp \<Rightarrow> real \<Rightarrow> symp" where
  "symp_set_run_adding_gain s gain = s\<lparr>run_adding_gain := gain\<rparr>"

subsection \<open>Processing\<close>

text \<open>
  The body of the loop over the combs in \<^verbatim>\<open>symp_run_effect\<close>, for one comb: the tap
  \<^verbatim>\<open>tmp\<close> is returned with the updated comb. \<open>d1\<close>, \<open>d2\<close> are \<^verbatim>\<open>symp->damp1\<close> and
  \<^verbatim>\<open>symp->damp2\<close>.
\<close>

definition comb_step :: "real \<Rightarrow> real \<Rightarrow> real \<Rightarrow> real \<Rightarrow> comb \<Rightarrow> fault + (real \<times> comb)" where
  "comb_step inp d1 d2 fb c =
     (case buffer c of
        None \<Rightarrow> Inl Null_Dereference
      | Some b \<Rightarrow>
          if idx c < 0 \<or> int (length b) \<le> idx c then Inl Out_Of_Bounds
          else
            let tmp = b ! nat (idx c);
                st = (tmp * d2) + (store c * d1);
                b' = b[nat (idx c) := inp + (st * fb)];
                i' = (if size_c c \<le> idx c + 1 then 0 else idx c + 1)
            in Inr (tmp, c\<lparr>store := st, buffer := Some b', idx := i'\<rparr>))"

text \<open>The loop \<^verbatim>\<open>for (c = 0; c < symp->num_combs; c++)\<close>, from comb \<open>c\<close> on.\<close>

function combs_loop ::
  "real \<Rightarrow> real \<Rightarrow> real \<Rightarrow> real \<Rightarrow> int \<Rightarrow> nat \<Rightarrow> comb option list \<Rightarrow> real \<Rightarrow>
   fault + (real \<times> comb option list)" where
  "combs_loop inp d1 d2 fb n c cs out =
     (if int c < n then
        (if length cs \<le> c then Inl Out_Of_Bounds
         else
           (case cs ! c of
              None \<Rightarrow> Inl Null_Dereference
            | Some cb \<Rightarrow>
                (case comb_step inp d1 d2 fb cb of
                   Inl f \<Rightarrow> Inl f
                 | Inr (tmp, cb') \<Rightarrow>
                     combs_loop inp d1 d2 fb n (c + 1) (cs[c := Some cb']) (out + tmp))))
      else Inr (out, cs))"
  by pat_completeness auto
termination
  by (relation "measure (\<lambda>(inp, d1, d2, fb, n, c, cs, out). nat n - c)") auto

declare combs_loop.simps [simp del]

text \<open>
  The write of one output sample. In add mode the sample is added, and only when the
  gain is positive; the pointer moves on only when the sample is written.
\<close>

definition write_out :: "bool \<Rightarrow> real \<Rightarrow> real \<Rightarrow> real \<Rightarrow> real list \<Rightarrow> nat \<Rightarrow> fault + (real list \<times> nat)" where
  "write_out add adding_gain wet out buf p =
     (if add then
        (if 0 < wet then
           (if length buf \<le> p then Inl Out_Of_Bounds
            else Inr (buf[p := buf ! p + out * adding_gain * wet], p + 1))
         else Inr (buf, p))
      else
        (if length buf \<le> p then Inl Out_Of_Bounds
         else Inr (buf[p := out * wet], p + 1)))"

text \<open>
  The loop \<^verbatim>\<open>for (i = 0; i < sample_count; i++)\<close>, from sample \<open>i\<close> on; \<open>p1\<close> and \<open>p2\<close>
  are the positions of the pointers \<^verbatim>\<open>out1\<close> and \<open>out2\<close> in their buffers.
\<close>

function sample_loop ::
  "nat \<Rightarrow> bool \<Rightarrow> real \<Rightarrow> real \<Rightarrow> real \<Rightarrow> real \<Rightarrow> real \<Rightarrow> real \<Rightarrow> real \<Rightarrow> int \<Rightarrow> real list \<Rightarrow>
   nat \<Rightarrow> nat \<Rightarrow> nat \<Rightarrow> comb option list \<Rightarrow> real list \<Rightarrow> real list \<Rightarrow>
   fault + (comb option list \<times> real list \<times> real list)" where
  "sample_loop sample_count add adding_gain input_gain wet_left wet_right d1 d2 fb n inp
       i p1 p2 cs o1 o2 =
     (if i < sample_count then
        (if length inp \<le> i then Inl Out_Of_Bounds
         else
           (case combs_loop (inp ! i * input_gain) d1 d2 fb n 0 cs 0 of
              Inl f \<Rightarrow> Inl f
            | Inr (out, cs') \<Rightarrow>
                (case write_out add adding_gain wet_left out o1 p1 of
                   Inl f \<Rightarrow> Inl f
                 | Inr (o1', p1') \<Rightarrow>
                     (case write_out add adding_gain wet_right out o2 p2 of
                        Inl f \<Rightarrow> Inl f
                      | Inr (o2', p2') \<Rightarrow>
                          sample_loop sample_count add adding_gain input_gain wet_left wet_right
                            d1 d2 fb n inp (i + 1) p1' p2' cs' o1' o2'))))
      else Inr (cs, o1, o2))"
  by pat_completeness auto
termination
  by (relation "measure (\<lambda>(sample_count, add, adding_gain, input_gain, wet_left, wet_right,
         d1, d2, fb, n, inp, i, p1, p2, cs, o1, o2). sample_count - i)") auto

declare sample_loop.simps [simp del]

text \<open>
  The two cache tests at the head of \<^verbatim>\<open>symp_run_effect\<close>: a derived coefficient is
  recomputed only when its control differs from the value seen last.
\<close>

definition refresh :: "ports \<Rightarrow> symp \<Rightarrow> symp" where
  "refresh h s =
     (let s1 = (if ctrl_damping h \<noteq> damping s
                then s\<lparr>damping := ctrl_damping h,
                       damp1 := ctrl_damping h * DAMPING_RANGE,
                       damp2 := 1 - ctrl_damping h * DAMPING_RANGE\<rparr>
                else s)
      in if ctrl_feedback h \<noteq> feedback s1
         then s1\<lparr>feedback := ctrl_feedback h,
                 scaled_feedback := FEEDBACK_OFFSET + (ctrl_feedback h * FEEDBACK_RANGE)\<rparr>
         else s1)"

text \<open>The clamping of a wet gain at the head of \<^verbatim>\<open>symp_run_effect\<close>.\<close>

definition clamp_wet :: "real \<Rightarrow> real" where
  "clamp_wet wet = (if wet < 0 then 0 else if wet > 1 then 1 else wet)"

text \<open>
  \<^verbatim>\<open>symp_run_effect\<close>: the wet gains are clamped into locals, the cached coefficients
  are refreshed, and the samples are processed. The result is the state and the two
  output buffers.
\<close>

definition symp_run_effect :: "ports \<Rightarrow> symp \<Rightarrow> nat \<Rightarrow> bool \<Rightarrow> fault + (symp \<times> real list \<times> real list)" where
  "symp_run_effect h s sample_count add =
     (let adding_gain = run_adding_gain s;
          input_gain = ctrl_gain_input h;
          wet_left = clamp_wet (ctrl_wet_left h);
          wet_right = clamp_wet (ctrl_wet_right h);
          s2 = refresh h s;
          fb = scaled_feedback s2
      in case sample_loop sample_count add adding_gain input_gain wet_left wet_right
                (damp1 s2) (damp2 s2) fb (num_combs s2) (audio_input h) 0 0 0 (combs s2)
                (audio_output1 h) (audio_output2 h) of
           Inl f \<Rightarrow> Inl f
         | Inr (cs, o1, o2) \<Rightarrow> Inr (s2\<lparr>combs := cs\<rparr>, o1, o2))"

definition symp_run :: "ports \<Rightarrow> symp \<Rightarrow> nat \<Rightarrow> fault + (symp \<times> real list \<times> real list)" where
  "symp_run h s sample_count = symp_run_effect h s sample_count False"

definition symp_run_adding :: "ports \<Rightarrow> symp \<Rightarrow> nat \<Rightarrow> fault + (symp \<times> real list \<times> real list)" where
  "symp_run_adding h s sample_count = symp_run_effect h s sample_count True"

subsection \<open>Observations used in the statements\<close>

text \<open>
  A comb is well formed when it has a buffer of \<^verbatim>\<open>size\<close> samples and its index lies
  inside it; then \<^verbatim>\<open>size\<close> is at least 1.
\<close>

definition comb_ok :: "comb \<Rightarrow> bool" where
  "comb_ok c =
     (case buffer c of
        None \<Rightarrow> False
      | Some b \<Rightarrow> size_c c = int (length b) \<and> 0 \<le> idx c \<and> idx c < size_c c)"

text \<open>
  The bank is well formed when the slots below \<^verbatim>\<open>num_combs\<close> lie inside the array and
  each holds a well-formed comb.
\<close>

definition slot_ok :: "comb option \<Rightarrow> bool" where
  "slot_ok c = (case c of None \<Rightarrow> False | Some cb \<Rightarrow> comb_ok cb)"

definition bank_ok :: "int \<Rightarrow> comb option list \<Rightarrow> bool" where
  "bank_ok n cs = (nat n \<le> length cs \<and> list_all slot_ok (take (nat n) cs))"

text \<open>The filters that \<^verbatim>\<open>symp_run_effect\<close> visits: the slots below \<^verbatim>\<open>num_combs\<close>.\<close>

definition bank :: "symp \<Rightarrow> comb option list" where
  "bank s = take (nat (num_combs s)) (combs s)"

text \<open>
  A comb as \<^verbatim>\<open>symp_setup_combs\<close> leaves it when both allocations succeed: zeroed,
  with a zeroed buffer of \<open>sz\<close> samples.
\<close>

definition fresh_comb :: "int \<Rightarrow> comb" where
  "fresh_comb sz = \<lparr>store = 0, buffer = Some (replicate (nat sz) 0), size_c = sz, idx = 0\<rparr>"

text \<open>
  The delay length that \<^verbatim>\<open>symp_setup_combs\<close> computes for a tuning above zero: the
  binary32 quotient of sample rate and tuning, its fractional part discarded.
\<close>

definition delay_length :: "nat \<Rightarrow> real \<Rightarrow> int" where
  "delay_length rate f = \<lfloor>f32_div (f32_of_nat rate) f\<rfloor>"

text \<open>The tunings that are in use: those above zero, in slot order.\<close>

definition active_tunings :: "real list \<Rightarrow> real list" where
  "active_tunings ts = filter (\<lambda>f. 0 < f) ts"

text \<open>
  Successive steps of one comb on a sequence of input samples, as the sample loop makes
  them for each comb of the bank, sample after sample; the taps are collected.
\<close>

fun comb_feed :: "real list \<Rightarrow> real \<Rightarrow> real \<Rightarrow> real \<Rightarrow> comb \<Rightarrow> fault + (real list \<times> comb)" where
  "comb_feed [] d1 d2 fb c = Inr ([], c)"
| "comb_feed (x # xs) d1 d2 fb c =
     (case comb_step x d1 d2 fb c of
        Inl f \<Rightarrow> Inl f
      | Inr (y, c') \<Rightarrow>
          (case comb_feed xs d1 d2 fb c' of
             Inl f \<Rightarrow> Inl f
           | Inr (ys, c'') \<Rightarrow> Inr (y # ys, c'')))"

text \<open>
  The output buffer that the specification describes for a block of \<open>n\<close> samples whose
  bank sums are \<open>mixed\<close>: in replace mode \<open>out[i] = mixed[i] * wet\<close>; in add mode
  \<open>out[i] = old[i] + mixed[i] * adding_gain * wet\<close> when \<open>wet > 0\<close>, and the old contents
  otherwise. Beyond the block the buffer keeps its contents.
\<close>

definition spec_output :: "bool \<Rightarrow> real \<Rightarrow> real \<Rightarrow> nat \<Rightarrow> real list \<Rightarrow> real list \<Rightarrow> real list" where
  "spec_output add adding_gain wet n old mixed =
     (if add then
        (if 0 < wet
         then map2 (\<lambda>a x. a + x * adding_gain * wet) (take n old) (take n mixed) @ drop n old
         else old)
      else map (\<lambda>x. x * wet) (take n mixed) @ drop n old)"

subsection \<open>Example inputs\<close>

text \<open>Allocation oracles: every call succeeds; only the first \<open>n\<close> calls succeed.\<close>

definition always :: "nat \<Rightarrow> bool" where
  "always k = True"

definition first_calls :: "nat \<Rightarrow> nat \<Rightarrow> bool" where
  "first_calls n k = (k < n)"

text \<open>The instance that \<^verbatim>\<open>symp_instantiate\<close> returns.\<close>

definition fresh_symp :: "nat \<Rightarrow> symp" where
  "fresh_symp rate =
     \<lparr>run_adding_gain = 0,
      combs = [None, None, None, None, None, None, None, None, None, None, None],
      num_combs = 0, damping = 0, damp1 = 0, damp2 = 1, feedback = 0, scaled_feedback = 0,
      sample_rate = rate\<rparr>"

text \<open>
  Two strings in use, at 24000 Hz and 16000 Hz: at 48000 samples per second their delay
  lines hold 2 and 3 samples. The input block is a unit impulse.
\<close>

definition two_strings :: ports where
  "two_strings =
     \<lparr>ctrl_tunings = [24000, 0, 16000, - 1, 0, 0, 0, 0, 0, 0, 0],
      ctrl_feedback = 0.5, ctrl_damping = 0, ctrl_gain_input = 1,
      ctrl_wet_left = 1, ctrl_wet_right = 0,
      audio_input = [1, 0, 0, 0], audio_output1 = [7, 7, 7, 7], audio_output2 = [9, 9, 9, 9]\<rparr>"

text \<open>The state after a fresh instance at 48000 Hz is activated with \<open>two_strings\<close>.\<close>

definition two_combs :: symp where
  "two_combs =
     \<lparr>run_adding_gain = 0,
      combs = [Some \<lparr>store = 0, buffer = Some [0, 0], size_c = 2, idx = 0\<rparr>,
               Some \<lparr>store = 0, buffer = Some [0, 0, 0], size_c = 3, idx = 0\<rparr>,
               None, None, None, None, None, None, None, None, None],
      num_combs = 2, damping = 0, damp1 = 0, damp2 = 1, feedback = 0, scaled_feedback = 0,
      sample_rate = 48000\<rparr>"

text \<open>
  The state when the fourth allocation of that activation, the buffer of the second
  comb, fails.
\<close>

definition half_built :: symp where
  "half_built =
     \<lparr>run_adding_gain = 0,
      combs = [Some \<lparr>store = 0, buffer = Some [0, 0], size_c = 2, idx = 0\<rparr>,
               Some \<lparr>store = 0, buffer = None, size_c = 0, idx = 0\<rparr>,
               None, None, None, None, None, None, None, None, None],
      num_combs = 2, damping = 0, damp1 = 0, damp2 = 1, feedback = 0, scaled_feedback = 0,
      sample_rate = 48000\<rparr>"

text \<open>One string at 50000 Hz, above a sample rate of 44100 Hz.\<close>

definition high_string :: ports where
  "high_string =
     \<lparr>ctrl_tunings = [50000, 0, 0, 0, 0, 0, 0, 0, 0, 0, 0],
      ctrl_feedback = 0.5, ctrl_damping = 0, ctrl_gain_input = 1,
      ctrl_wet_left = 1, ctrl_wet_right = 1,
      audio_input = [1, 0, 0, 0], audio_output1 = [0, 0, 0, 0], audio_output2 = [0, 0, 0, 0]\<rparr>"

definition zero_delay :: symp where
  "zero_delay =
     \<lparr>run_adding_gain = 0,
      combs = [Some \<lparr>store = 0, buffer = Some [], size_c = 0, idx = 0\<rparr>,
               None, None, None, None, None, None, None, None, None, None],
      num_combs = 1, damping = 0, damp1 = 0, damp2 = 1, feedback = 0, scaled_feedback = 0,
      sample_rate = 44100\<rparr>"

text \<open>
  One string at 48000 Hz (a delay line of one sample at 48000 samples per second), the
  feedback control at the lower end of its range, and a unit impulse as input.
\<close>

definition feedback_zero :: ports where
  "feedback_zero =
     \<lparr>ctrl_tunings = [48000, 0, 0, 0, 0, 0, 0, 0, 0, 0, 0],
      ctrl_feedback = 0, ctrl_damping = 0, ctrl_gain_input = 1,
      ctrl_wet_left = 1, ctrl_wet_right = 1,
      audio_input = [1, 0, 0], audio_output1 = [0, 0, 0], audio_output2 = [0, 0, 0]\<rparr>"

definition one_comb :: symp where
  "one_comb =
     \<lparr>run_adding_gain = 0,
      combs = [Some \<lparr>store = 0, buffer = Some [0], size_c = 1, idx = 0\<rparr>,
               None, None, None, None, None, None, None, None, None, None],
      num_combs = 1, damping = 0, damp1 = 0, damp2 = 1, feedback = 0, scaled_feedback = 0,
      sample_rate = 48000\<rparr>"

section \<open>Evaluation\<close>

lemma replicate_eleven: "replicate 11 x = [x, x, x, x, x, x, x, x, x, x, x]"
  by (simp add: eval_nat_numeral)

lemma two_powi: "(2::real) powi k = (if 0 \<le> k then 2 ^ nat k else 1 / 2 ^ nat (- k))"
  by (simp add: power_int_def inverse_eq_divide power_divide)

lemmas f32_eval =
  f32_div_def f32_of_nat_def f32_round_def f32_exponent_def exponent_up.simps
  exponent_down.simps round_even_def Let_def two_powi

text \<open>The delay lengths of the examples.\<close>

lemma delay_length_eval:
  "delay_length 48000 24000 = 2"
  "delay_length 48000 16000 = 3"
  "delay_length 48000 48000 = 1"
  "delay_length 44100 50000 = 0"
  "delay_length 44100 88200 = 0"
  "delay_length 44100 (16421237 / 8192) = 22"
  by (simp_all add: delay_length_def f32_eval)

lemma quotient_eval:
  "float_to_int (f32_div (f32_of_nat 48000) 24000) = Inr 2"
  "float_to_int (f32_div (f32_of_nat 48000) 16000) = Inr 3"
  "float_to_int (f32_div (f32_of_nat 48000) 48000) = Inr 1"
  "float_to_int (f32_div (f32_of_nat 44100) 50000) = Inr 0"
  "float_to_int (f32_div (f32_of_nat 44100) 88200) = Inr 0"
  "float_to_int (f32_div (f32_of_nat 44100) (16421237 / 8192)) = Inr 22"
  by (simp_all add: float_to_int_def f32_eval)

lemmas setup_eval =
  symp_activate_def symp_setup_combs_def setup_loop.simps COMB_COUNT_def quotient_eval
  always_def first_calls_def Let_def numeral_2_eq_2 numeral_3_eq_3

lemmas run_eval =
  symp_run_effect_def refresh_def clamp_wet_def sample_loop.simps combs_loop.simps
  comb_step_def write_out_def FEEDBACK_OFFSET_def FEEDBACK_RANGE_def DAMPING_RANGE_def Let_def

lemma symp_instantiate_fresh: "symp_instantiate True rate = Some (fresh_symp rate)"
  by (simp add: symp_instantiate_def fresh_symp_def COMB_COUNT_def replicate_eleven)

lemma two_combs_reached:
  "symp_activate always two_strings (fresh_symp 48000) = Inr ([], two_combs)"
  by (simp add: setup_eval two_strings_def fresh_symp_def two_combs_def)

lemma one_comb_reached:
  "symp_activate always feedback_zero (fresh_symp 48000) = Inr ([], one_comb)"
  by (simp add: setup_eval feedback_zero_def fresh_symp_def one_comb_def)

section \<open>The comb filter step\<close>

lemma comb_step_keeps_ok:
  "comb_ok c \<Longrightarrow> \<exists>y c'. comb_step inp d1 d2 fb c = Inr (y, c') \<and> comb_ok c' \<and> size_c c' = size_c c"
  by (auto simp: comb_ok_def comb_step_def Let_def split: option.splits)

lemma comb_step_in_range:
  assumes "buffer c = Some b" and "size_c c = int (length b)"
    and "0 \<le> idx c" and "idx c < size_c c"
  shows "comb_step inp d1 d2 fb c =
           Inr (b ! nat (idx c),
                c\<lparr>store := b ! nat (idx c) * d2 + store c * d1,
                  buffer := Some (b[nat (idx c) := inp + (b ! nat (idx c) * d2 + store c * d1) * fb]),
                  idx := (idx c + 1) mod size_c c\<rparr>)"
proof -
  have "(if size_c c \<le> idx c + 1 then 0 else idx c + 1) = (idx c + 1) mod size_c c"
  proof (cases "size_c c \<le> idx c + 1")
    case True
    with assms have "idx c + 1 = size_c c" by simp
    then show ?thesis by simp
  next
    case False
    with assms show ?thesis by simp
  qed
  with assms show ?thesis
    by (simp add: comb_step_def Let_def)
qed

text \<open>
  Claim C1. For a comb with a buffer of \<open>size_c c\<close> samples and index inside it (so the
  delay length is at least 1), one step returns the tap \<open>buffer[idx]\<close> read before any
  update; the store becomes \<open>tap * damp2 + store * damp1\<close>; the slot just read is
  overwritten with \<open>input + new store * feedback\<close>; and the index becomes
  \<open>(idx + 1) mod size\<close>. Nothing else of the comb changes.
\<close>

theorem comb_step_order:
  assumes "buffer c = Some b" and "size_c c = int (length b)"
    and "0 \<le> idx c" and "idx c < size_c c"
  shows "comb_step inp d1 d2 fb c =
           Inr (b ! nat (idx c),
                c\<lparr>store := b ! nat (idx c) * d2 + store c * d1,
                  buffer := Some (b[nat (idx c) := inp + (b ! nat (idx c) * d2 + store c * d1) * fb]),
                  idx := (idx c + 1) mod size_c c\<rparr>)"
  using assms by (rule comb_step_in_range)

theorem comb_step_order_witness:
  "comb_step 5 (1 / 2) (1 / 2) 1 \<lparr>store = 2, buffer = Some [3, 4], size_c = 2, idx = 1\<rparr>
     = Inr (4, \<lparr>store = 3, buffer = Some [3, 8], size_c = 2, idx = 0\<rparr>)"
  using comb_step_order [of "\<lparr>store = 2, buffer = Some [3, 4], size_c = 2, idx = 1\<rparr>"
      "[3, 4]" 5 "1 / 2" "1 / 2" 1]
  by simp

text \<open>
  With no damping and unit feedback a comb fed with silence recirculates its buffer
  unchanged: the taps read the buffer round and round from the index on.
\<close>

lemma comb_feed_zero_input:
  assumes "buffer c = Some b" and "size_c c = int (length b)"
    and "idx c = int i" and "i < length b"
  shows "\<exists>c'. comb_feed (replicate n 0) 0 1 1 c =
                 Inr (map (\<lambda>k. b ! ((i + k) mod length b)) [0..<n], c') \<and>
              buffer c' = Some b \<and> size_c c' = size_c c \<and>
              idx c' = int ((i + n) mod length b)"
  using assms
proof (induction n arbitrary: c i)
  case 0
  then show ?case by simp
next
  case (Suc n)
  let ?L = "length b"
  let ?c1 = "c\<lparr>store := b ! i, buffer := Some b, idx := int (Suc i mod ?L)\<rparr>"
  have step: "comb_step 0 0 1 1 c = Inr (b ! i, ?c1)"
    using comb_step_in_range [of c b 0 0 1 1] Suc.prems
    by (simp add: zmod_int add.commute)
  have "0 < ?L" using Suc.prems(4) by (cases b) simp_all
  then have "Suc i mod ?L < ?L" by (rule mod_less_divisor)
  from Suc.IH [of ?c1 "Suc i mod ?L"] this Suc.prems
  obtain c' where rest: "comb_feed (replicate n 0) 0 1 1 ?c1 =
                 Inr (map (\<lambda>k. b ! ((Suc i mod ?L + k) mod ?L)) [0..<n], c')"
    and fin: "buffer c' = Some b" "size_c c' = size_c c" "idx c' = int ((Suc i mod ?L + n) mod ?L)"
    by auto
  have shift: "(Suc i mod ?L + k) mod ?L = (i + Suc k) mod ?L" for k
    by (metis add_Suc add_Suc_right mod_add_left_eq)
  have outs: "map (\<lambda>k. b ! ((i + k) mod ?L)) [0..<Suc n] =
              b ! i # map (\<lambda>k. b ! ((Suc i mod ?L + k) mod ?L)) [0..<n]"
    using Suc.prems(4)
    by (simp add: upt_conv_Cons map_Suc_upt [symmetric] shift del: upt_Suc)
  show ?case
    using step rest fin outs shift [of n] by simp
qed

text \<open>
  Claim C5. A fresh comb of \<open>L \<ge> 1\<close> samples, stepped with \<open>damp1 = 0\<close>, \<open>damp2 = 1\<close> and
  feedback 1 on a unit impulse followed by any number \<open>n\<close> of zeros, returns 1 at the
  samples \<open>L, 2L, 3L, \<dots>\<close> and 0 at every other sample; the buffer holds the impulse.
\<close>

theorem comb_impulse_recirculates:
  assumes "1 \<le> L"
  shows "\<exists>c'. comb_feed (1 # replicate n 0) 0 1 1 (fresh_comb L) =
                 Inr (map (\<lambda>j. if 0 < j \<and> j mod nat L = 0 then 1 else 0) [0..<Suc n], c') \<and>
              buffer c' = Some ((replicate (nat L) 0)[0 := 1])"
proof -
  let ?b = "(replicate (nat L) 0)[0 := 1::real]"
  let ?c1 = "(fresh_comb L)\<lparr>store := 0, buffer := Some ?b, idx := 1 mod L\<rparr>"
  have len: "length ?b = nat L" by simp
  have step: "comb_step 1 0 1 1 (fresh_comb L) = Inr (0, ?c1)"
    using comb_step_in_range [of "fresh_comb L" "replicate (nat L) 0" 1 0 1 1] assms
    by (simp add: fresh_comb_def)
  have i1: "1 mod L = int (1 mod nat L)"
  proof -
    have "int (1 mod nat L) = 1 mod int (nat L)" by (metis of_nat_1 zmod_int)
    moreover have "int (nat L) = L" using assms by simp
    ultimately show ?thesis by (simp only:)
  qed
  have "0 < nat L" using assms by simp
  then have "1 mod nat L < nat L" by (rule mod_less_divisor)
  then have "1 mod nat L < length ?b" by simp
  from comb_feed_zero_input [of ?c1 ?b "1 mod nat L" n] this i1 assms
  obtain c' where rest: "comb_feed (replicate n 0) 0 1 1 ?c1 =
                 Inr (map (\<lambda>k. ?b ! ((1 mod nat L + k) mod length ?b)) [0..<n], c')"
    and fin: "buffer c' = Some ?b"
    by (auto simp: fresh_comb_def)
  have tap: "?b ! ((1 mod nat L + k) mod length ?b) = (if Suc k mod nat L = 0 then 1 else 0)" for k
  proof -
    have "(1 mod nat L + k) mod nat L = Suc k mod nat L"
      by (metis Suc_eq_plus1_left mod_add_left_eq)
    moreover have "Suc k mod nat L < nat L" using assms by simp
    ultimately show ?thesis
      by (simp add: nth_list_update)
  qed
  have "map (\<lambda>k. ?b ! ((1 mod nat L + k) mod length ?b)) [0..<n] =
        map (\<lambda>k. if Suc k mod nat L = 0 then 1 else 0) [0..<n]"
    by (simp only: tap)
  moreover have "map (\<lambda>j. if 0 < j \<and> j mod nat L = 0 then 1 else (0::real)) [0..<Suc n] =
        0 # map (\<lambda>k. if Suc k mod nat L = 0 then 1 else 0) [0..<n]"
    by (simp add: upt_conv_Cons map_Suc_upt [symmetric] del: upt_Suc)
  ultimately have outs: "map (\<lambda>j. if 0 < j \<and> j mod nat L = 0 then 1 else (0::real)) [0..<Suc n] =
              0 # map (\<lambda>k. ?b ! ((1 mod nat L + k) mod length ?b)) [0..<n]"
    by (simp only:)
  show ?thesis
    using step rest fin outs by simp
qed

theorem comb_impulse_recirculates_witness:
  "\<exists>c'. comb_feed [1, 0, 0, 0, 0, 0, 0] 0 1 1 (fresh_comb 3) =
           Inr ([0, 0, 0, 1, 0, 0, 1], c') \<and>
         buffer c' = Some [1, 0, 0]"
proof -
  have ins: "1 # replicate 6 0 = [1, 0, 0, 0, 0, 0, 0::real]"
    by (simp add: eval_nat_numeral)
  have "[0..<Suc 6] = [0, 1, 2, 3, 4, 5, 6]"
    by (simp add: upt_conv_Cons)
  then have outs: "map (\<lambda>j. if 0 < j \<and> j mod nat 3 = 0 then 1 else 0) [0..<Suc 6] =
                   [0, 0, 0, 1, 0, 0, 1::real]"
    by simp
  have buf: "(replicate (nat 3) 0)[0 := 1] = [1, 0, 0::real]"
    by (simp add: eval_nat_numeral)
  show ?thesis
    using comb_impulse_recirculates [of 3 6] unfolding ins outs buf by simp
qed

section \<open>Rounding to binary32\<close>

lemma round_even_ge: "of_int m \<le> y \<Longrightarrow> m \<le> round_even y"
proof -
  assume "of_int m \<le> y"
  then have "m \<le> \<lfloor>y\<rfloor>" by (simp add: le_floor_iff)
  then show ?thesis by (simp add: round_even_def Let_def)
qed

lemma round_even_le: "y \<le> of_int m \<Longrightarrow> round_even y \<le> m"
proof (cases "y = of_int m")
  case True
  then show ?thesis by (simp add: round_even_def Let_def)
next
  case False
  assume "y \<le> of_int m"
  with False have "y < of_int m" by simp
  then have "\<lfloor>y\<rfloor> < m" by (simp add: floor_less_iff)
  then show ?thesis by (simp add: round_even_def Let_def)
qed

lemma exponent_up_step:
  "2 \<le> x \<Longrightarrow> e < 127 \<Longrightarrow> exponent_up x e = exponent_up (x / 2) (e + 1)"
  by (subst exponent_up.simps) simp

lemma exponent_up_stop: "\<not> (2 \<le> x \<and> e < 127) \<Longrightarrow> exponent_up x e = e"
  by (subst exponent_up.simps) auto

lemma exponent_down_step:
  "x < 1 \<Longrightarrow> - 126 < e \<Longrightarrow> exponent_down x e = exponent_down (x * 2) (e - 1)"
  by (subst exponent_down.simps) simp

lemma exponent_down_stop: "\<not> (x < 1 \<and> - 126 < e) \<Longrightarrow> exponent_down x e = e"
  by (subst exponent_down.simps) auto

lemma exponent_up_ge: "e \<le> exponent_up x e"
proof (induction x e rule: exponent_up.induct)
  case (1 x e)
  show ?case
  proof (cases "2 \<le> x \<and> e < 127")
    case True
    with "1.IH" have "e + 1 \<le> exponent_up (x / 2) (e + 1)" by simp
    with True show ?thesis by (simp add: exponent_up_step)
  next
    case False
    then show ?thesis using exponent_up_stop [of x e] by simp
  qed
qed

lemma exponent_down_le: "exponent_down x e \<le> e"
proof (induction x e rule: exponent_down.induct)
  case (1 x e)
  show ?case
  proof (cases "x < 1 \<and> - 126 < e")
    case True
    with "1.IH" have "exponent_down (x * 2) (e - 1) \<le> e - 1" by simp
    with True show ?thesis by (simp add: exponent_down_step)
  next
    case False
    then show ?thesis using exponent_down_stop [of x e] by simp
  qed
qed

lemma exponent_up_bound: "x < 2 * 2 ^ k \<Longrightarrow> exponent_up x e \<le> e + int k"
proof (induction k arbitrary: x e)
  case 0
  then have "\<not> (2 \<le> x \<and> e < 127)" by simp
  then show ?case using exponent_up_stop [of x e] by simp
next
  case (Suc k)
  show ?case
  proof (cases "2 \<le> x \<and> e < 127")
    case True
    have "x / 2 < 2 * 2 ^ k" using Suc.prems by simp
    then have "exponent_up (x / 2) (e + 1) \<le> e + 1 + int k" by (rule Suc.IH)
    with True show ?thesis by (simp add: exponent_up_step)
  next
    case False
    then show ?thesis using exponent_up_stop [of x e] by simp
  qed
qed

lemma two_powi_Suc: "(2::real) powi (n + 1) = 2 * 2 powi n"
  by (simp add: power_int_add)

lemma exponent_up_pow: "1 \<le> x \<Longrightarrow> 2 powi (exponent_up x e - e) \<le> x"
proof (induction x e rule: exponent_up.induct)
  case (1 x e)
  show ?case
  proof (cases "2 \<le> x \<and> e < 127")
    case True
    then have "1 \<le> x / 2" by simp
    with "1.IH" True have "2 powi (exponent_up (x / 2) (e + 1) - (e + 1)) \<le> x / 2" by simp
    moreover have "exponent_up x e = exponent_up (x / 2) (e + 1)"
      using True by (simp add: exponent_up_step)
    moreover have "(2::real) powi (exponent_up (x / 2) (e + 1) - e) =
                   2 * 2 powi (exponent_up (x / 2) (e + 1) - (e + 1))"
      using two_powi_Suc [of "exponent_up (x / 2) (e + 1) - (e + 1)"] by simp
    ultimately show ?thesis by simp
  next
    case False
    then have "exponent_up x e = e" by (rule exponent_up_stop)
    with "1.prems" show ?thesis by simp
  qed
qed

lemma f32_exponent_small: "x < 2 ^ 24 \<Longrightarrow> f32_exponent x \<le> 23"
proof (cases "1 \<le> x")
  case True
  assume "x < 2 ^ 24"
  then have "x < 2 * 2 ^ 23" by simp
  then have "exponent_up x 0 \<le> 0 + int 23" by (rule exponent_up_bound)
  with True show ?thesis by (simp add: f32_exponent_def)
next
  case False
  have "exponent_down x 0 \<le> 0" by (rule exponent_down_le)
  with False show ?thesis by (simp add: f32_exponent_def)
qed

text \<open>Below \<open>2 ^ 24\<close> the integers are fixed points, so rounding does not cross them.\<close>

lemma f32_round_int_bounds:
  assumes "\<bar>x\<bar> < 2 ^ 24"
  shows "of_int m \<le> x \<Longrightarrow> of_int m \<le> f32_round x"
    and "x \<le> of_int n \<Longrightarrow> f32_round x \<le> of_int n"
proof -
  define k where "k = nat (23 - f32_exponent \<bar>x\<bar>)"
  have e: "f32_exponent \<bar>x\<bar> - 23 = - int k"
    using f32_exponent_small [OF assms] by (simp add: k_def)
  have u: "(2::real) powi (f32_exponent \<bar>x\<bar> - 23) = 1 / 2 ^ k"
    unfolding e by (simp add: power_int_minus inverse_eq_divide)
  have r: "f32_round x = of_int (round_even (x * 2 ^ k)) / 2 ^ k"
    by (simp add: f32_round_def Let_def u)
  {
    assume "of_int m \<le> x"
    then have "of_int (m * 2 ^ k) \<le> x * 2 ^ k" by simp
    then have "m * 2 ^ k \<le> round_even (x * 2 ^ k)" by (rule round_even_ge)
    then have "of_int (m * 2 ^ k) \<le> (of_int (round_even (x * 2 ^ k)) :: real)"
      by (simp only: of_int_le_iff)
    then show "of_int m \<le> f32_round x"
      by (simp add: r pos_le_divide_eq)
  }
  {
    assume "x \<le> of_int n"
    then have "x * 2 ^ k \<le> of_int (n * 2 ^ k)" by simp
    then have "round_even (x * 2 ^ k) \<le> n * 2 ^ k" by (rule round_even_le)
    then have "(of_int (round_even (x * 2 ^ k)) :: real) \<le> of_int (n * 2 ^ k)"
      by (simp only: of_int_le_iff)
    then show "f32_round x \<le> of_int n"
      by (simp add: r pos_divide_le_eq)
  }
qed

lemma f32_round_floor:
  assumes "0 \<le> x" and "x < 2 ^ 24"
  shows "\<lfloor>x\<rfloor> \<le> \<lfloor>f32_round x\<rfloor>" and "\<lfloor>f32_round x\<rfloor> \<le> \<lfloor>x\<rfloor> + 1"
proof -
  have a: "\<bar>x\<bar> < 2 ^ 24" using assms by simp
  have "of_int \<lfloor>x\<rfloor> \<le> f32_round x"
    by (rule f32_round_int_bounds(1) [OF a]) simp
  then show "\<lfloor>x\<rfloor> \<le> \<lfloor>f32_round x\<rfloor>" by (simp add: le_floor_iff)
  have "x \<le> of_int (\<lfloor>x\<rfloor> + 1)" by (simp add: less_imp_le)
  then have "f32_round x \<le> of_int (\<lfloor>x\<rfloor> + 1)"
    by (rule f32_round_int_bounds(2) [OF a])
  then have "\<lfloor>f32_round x\<rfloor> \<le> \<lfloor>of_int (\<lfloor>x\<rfloor> + 1) :: real\<rfloor>"
    by (rule floor_mono)
  then show "\<lfloor>f32_round x\<rfloor> \<le> \<lfloor>x\<rfloor> + 1"
    by simp
qed

lemma f32_round_nat: "n < 2 ^ 24 \<Longrightarrow> f32_round (real n) = real n"
proof -
  assume "n < 2 ^ 24"
  then have a: "\<bar>real n\<bar> < 2 ^ 24" by (simp add: of_nat_less_numeral_power_cancel_iff)
  have "of_int (int n) \<le> f32_round (real n)"
    by (rule f32_round_int_bounds(1) [OF a]) simp
  moreover have "f32_round (real n) \<le> of_int (int n)"
    by (rule f32_round_int_bounds(2) [OF a]) simp
  ultimately show ?thesis by simp
qed

lemma f32_round_nonneg: "0 \<le> x \<Longrightarrow> 0 \<le> f32_round x"
proof -
  assume x: "0 \<le> x"
  let ?u = "(2::real) powi (f32_exponent \<bar>x\<bar> - 23)"
  have u: "0 < ?u" by simp
  then have "of_int 0 \<le> x / ?u" using x by simp
  then have "0 \<le> round_even (x / ?u)" by (rule round_even_ge)
  then show ?thesis using u by (simp add: f32_round_def Let_def)
qed

lemma f32_round_ge_one: "1 \<le> x \<Longrightarrow> 1 \<le> f32_round x"
proof -
  assume x: "1 \<le> x"
  let ?e = "exponent_up x 0"
  let ?u = "(2::real) powi (?e - 23)"
  have e: "f32_exponent \<bar>x\<bar> = ?e" using x by (simp add: f32_exponent_def)
  have u: "0 < ?u" by simp
  have e0: "0 \<le> ?e" by (rule exponent_up_ge)
  have "2 powi (?e - 0) \<le> x" using x by (rule exponent_up_pow)
  then have "2 powi ?e / ?u \<le> x / ?u" using u by (simp add: divide_right_mono)
  moreover have "(2::real) powi ?e / ?u = of_int (2 ^ 23)"
    by (simp add: power_int_diff)
  ultimately have "of_int (2 ^ 23) \<le> x / ?u" by simp
  then have "2 ^ 23 \<le> round_even (x / ?u)" by (rule round_even_ge)
  then have "(2 ^ 23 :: real) \<le> of_int (round_even (x / ?u))"
    by (metis of_int_le_iff of_int_numeral of_int_power)
  then have "2 ^ 23 * ?u \<le> of_int (round_even (x / ?u)) * ?u"
    using u by simp
  moreover have "2 ^ 23 * ?u = 2 powi ?e" by (simp add: power_int_diff)
  moreover have "(1::real) \<le> 2 powi ?e" using e0 by (simp add: one_le_power_int)
  ultimately have "1 \<le> of_int (round_even (x / ?u)) * ?u" by linarith
  then show ?thesis using x by (simp add: f32_round_def Let_def f32_exponent_def)
qed

lemma exponent_up_upper:
  "x < 2 powi (128 - e) \<Longrightarrow> e \<le> 127 \<Longrightarrow> x < 2 * 2 powi (exponent_up x e - e)"
proof (induction x e rule: exponent_up.induct)
  case (1 x e)
  show ?case
  proof (cases "2 \<le> x \<and> e < 127")
    case True
    have "(2::real) powi (128 - e) = 2 * 2 powi (128 - (e + 1))"
      using two_powi_Suc [of "128 - (e + 1)"] by simp
    with "1.prems" have "x / 2 < 2 powi (128 - (e + 1))" by simp
    with "1.IH" True have "x / 2 < 2 * 2 powi (exponent_up (x / 2) (e + 1) - (e + 1))" by simp
    moreover have "(2::real) powi (exponent_up (x / 2) (e + 1) - e) =
                   2 * 2 powi (exponent_up (x / 2) (e + 1) - (e + 1))"
      using two_powi_Suc [of "exponent_up (x / 2) (e + 1) - (e + 1)"] by simp
    ultimately show ?thesis using True by (simp add: exponent_up_step)
  next
    case False
    then have st: "exponent_up x e = e" by (rule exponent_up_stop)
    show ?thesis
    proof (cases "x < 2")
      case True
      then show ?thesis by (simp add: st)
    next
      case big: False
      with False "1.prems"(2) have "e = 127" by simp
      with "1.prems"(1) big show ?thesis by simp
    qed
  qed
qed

lemma exponent_down_bounds:
  "0 < x \<Longrightarrow> x < 2 \<Longrightarrow> 2 powi (- 126 - e) \<le> x \<Longrightarrow>
   2 powi (exponent_down x e - e) \<le> x \<and> x < 2 * 2 powi (exponent_down x e - e)"
proof (induction x e rule: exponent_down.induct)
  case (1 x e)
  show ?case
  proof (cases "x < 1 \<and> - 126 < e")
    case True
    have a: "(2::real) powi (- 126 - (e - 1)) = 2 * 2 powi (- 126 - e)"
      using two_powi_Suc [of "- 126 - e"] by (simp add: algebra_simps)
    have "2 powi (- 126 - (e - 1)) \<le> x * 2" unfolding a using "1.prems"(3) by simp
    with "1.IH" True "1.prems"(1)
    have ih: "2 powi (exponent_down (x * 2) (e - 1) - (e - 1)) \<le> x * 2 \<and>
          x * 2 < 2 * 2 powi (exponent_down (x * 2) (e - 1) - (e - 1))" by simp
    have b: "(2::real) powi (exponent_down (x * 2) (e - 1) - (e - 1)) =
             2 * 2 powi (exponent_down (x * 2) (e - 1) - e)"
      using two_powi_Suc [of "exponent_down (x * 2) (e - 1) - e"] by (simp add: algebra_simps)
    from ih show ?thesis using True unfolding b by (simp add: exponent_down_step)
  next
    case False
    then have st: "exponent_down x e = e" by (rule exponent_down_stop)
    show ?thesis
    proof (cases "x < 1")
      case True
      with False have "e \<le> - 126" by simp
      then have "(1::real) \<le> 2 powi (- 126 - e)" by (simp add: one_le_power_int)
      with "1.prems"(3) True show ?thesis by simp
    next
      case big: False
      with "1.prems"(2) show ?thesis by (simp add: st)
    qed
  qed
qed

text \<open>The exponent found is the one of the binade that holds the magnitude.\<close>

lemma f32_exponent_binade:
  assumes "2 powi (- 126) \<le> x" and "x < 2 powi 128"
  shows "2 powi f32_exponent x \<le> x" and "x < 2 powi (f32_exponent x + 1)"
proof -
  have pos: "0 < x"
    using assms(1) by (rule less_le_trans [rotated]) simp
  have "2 powi f32_exponent x \<le> x \<and> x < 2 powi (f32_exponent x + 1)"
  proof (cases "1 \<le> x")
    case True
    have "2 powi (exponent_up x 0 - 0) \<le> x" using True by (rule exponent_up_pow)
    moreover have "x < 2 * 2 powi (exponent_up x 0 - 0)"
      using assms(2) by (intro exponent_up_upper) simp_all
    ultimately show ?thesis using True by (simp add: f32_exponent_def two_powi_Suc)
  next
    case False
    then have "x < 2" by simp
    from exponent_down_bounds [OF pos this, of 0] assms(1)
    show ?thesis using False by (simp add: f32_exponent_def two_powi_Suc)
  qed
  then show "2 powi f32_exponent x \<le> x" and "x < 2 powi (f32_exponent x + 1)" by simp_all
qed

text \<open>Quotients met when the code is run, and a tie.\<close>

lemma f32_div_examples:
  "f32_div (f32_of_nat 44100) (16421237 / 8192) = 22"
  "\<lfloor>44100 / (16421237 / 8192) :: real\<rfloor> = 21"
  "f32_div (f32_of_nat 48000) (10066330 / 131072) = 625"
  "\<lfloor>48000 / (10066330 / 131072) :: real\<rfloor> = 624"
  "f32_of_nat 16777217 = 16777216"
  by (simp_all add: f32_eval)

section \<open>Activation\<close>

lemma length_active_tunings: "length (active_tunings ts) \<le> length ts"
  by (simp add: active_tunings_def)

text \<open>
  The conversion that \<^verbatim>\<open>symp_setup_combs\<close> applies to the quotient returns the delay
  length as long as it fits an \<^verbatim>\<open>int\<close>.
\<close>

lemma f32_quotient_nonneg: "0 < f \<Longrightarrow> 0 \<le> f32_div (f32_of_nat r) f"
proof -
  assume "0 < f"
  moreover have "0 \<le> f32_of_nat r"
    unfolding f32_of_nat_def by (rule f32_round_nonneg) simp
  ultimately have "0 \<le> f32_of_nat r / f" by simp
  then show ?thesis unfolding f32_div_def by (rule f32_round_nonneg)
qed

lemma float_to_int_quotient:
  assumes "0 < f" and "delay_length r f < 2 ^ 31"
  shows "float_to_int (f32_div (f32_of_nat r) f) = Inr (delay_length r f)"
proof -
  have nonneg: "0 \<le> f32_div (f32_of_nat r) f"
    using assms(1) by (rule f32_quotient_nonneg)
  then have "0 \<le> delay_length r f" by (simp add: delay_length_def)
  then show ?thesis
    using nonneg assms(2) by (simp add: float_to_int_def delay_length_def Let_def)
qed

text \<open>
  The delay length against the exact quotient: for a sample rate and a quotient below
  \<open>2 ^ 24\<close> it is the floor of the exact quotient or one more, and it is at least 1
  when the tuning does not exceed the sample rate.
\<close>

lemma delay_length_bounds:
  assumes "0 < f" and "r < 2 ^ 24" and "real r / f < 2 ^ 24"
  shows "\<lfloor>real r / f\<rfloor> \<le> delay_length r f" and "delay_length r f \<le> \<lfloor>real r / f\<rfloor> + 1"
proof -
  have r: "f32_of_nat r = real r"
    unfolding f32_of_nat_def using assms(2) by (rule f32_round_nat)
  have q: "0 \<le> real r / f" using assms(1) by simp
  show "\<lfloor>real r / f\<rfloor> \<le> delay_length r f"
    unfolding delay_length_def f32_div_def r by (rule f32_round_floor(1) [OF q assms(3)])
  show "delay_length r f \<le> \<lfloor>real r / f\<rfloor> + 1"
    unfolding delay_length_def f32_div_def r by (rule f32_round_floor(2) [OF q assms(3)])
qed

lemma delay_length_pos:
  assumes "0 < f" and "f \<le> f32_of_nat r"
  shows "1 \<le> delay_length r f"
proof -
  have "1 \<le> f32_of_nat r / f" using assms by simp
  then have "1 \<le> f32_div (f32_of_nat r) f"
    unfolding f32_div_def by (rule f32_round_ge_one)
  then show ?thesis by (simp add: delay_length_def le_floor_iff)
qed

text \<open>
  The loop of \<^verbatim>\<open>symp_setup_combs\<close> when no allocation fails: from slot \<open>i\<close> on, one fresh
  comb per tuning above zero is stored at the slots from \<^verbatim>\<open>num_combs\<close> up, in slot order;
  the slots below and beyond keep their contents.
\<close>

lemma setup_loop_all_alloc:
  assumes "\<forall>k. alloc k"
    and "length (ctrl_tunings h) = COMB_COUNT"
    and "0 \<le> num_combs s"
    and "nat (num_combs s) + length (active_tunings (drop i (ctrl_tunings h))) \<le> length (combs s)"
    and "\<forall>f \<in> set (drop i (ctrl_tunings h)). 0 < f \<longrightarrow> delay_length (sample_rate s) f < 2 ^ 31"
    and "i \<le> COMB_COUNT"
  shows "setup_loop alloc h i k s =
           Inr (1, s\<lparr>combs := take (nat (num_combs s)) (combs s)
                        @ map (\<lambda>f. Some (fresh_comb (delay_length (sample_rate s) f)))
                            (active_tunings (drop i (ctrl_tunings h)))
                        @ drop (nat (num_combs s) + length (active_tunings (drop i (ctrl_tunings h)))) (combs s),
                      num_combs := num_combs s + int (length (active_tunings (drop i (ctrl_tunings h))))\<rparr>)"
  using assms
proof (induction alloc h i k s rule: setup_loop.induct)
  case (1 alloc h i k s)
  let ?ts = "ctrl_tunings h"
  show ?case
  proof (cases "i < COMB_COUNT")
    case False
    then show ?thesis
      using "1.prems"(2) by (simp add: setup_loop.simps [of alloc h i k s] active_tunings_def)
  next
    case True
    then have len: "i < length ?ts" using "1.prems"(2) by simp
    have split: "drop i ?ts = ?ts ! i # drop (Suc i) ?ts"
      using len by (simp add: Cons_nth_drop_Suc)
    show ?thesis
    proof (cases "?ts ! i \<le> 0")
      case skip: True
      have "setup_loop alloc h i k s = setup_loop alloc h (i + 1) k s"
        using True len skip by (simp add: setup_loop.simps [of alloc h i k s])
      also have "\<dots> = Inr (1, s\<lparr>combs := take (nat (num_combs s)) (combs s)
                        @ map (\<lambda>f. Some (fresh_comb (delay_length (sample_rate s) f)))
                            (active_tunings (drop (i + 1) ?ts))
                        @ drop (nat (num_combs s) + length (active_tunings (drop (i + 1) ?ts))) (combs s),
                      num_combs := num_combs s + int (length (active_tunings (drop (i + 1) ?ts)))\<rparr>)"
        using True len skip "1.prems" split
        by (intro "1.IH"(1)) (auto simp: active_tunings_def)
      finally show ?thesis
        using skip by (simp add: split active_tunings_def)
    next
      case act: False
      then have pos: "0 < ?ts ! i" by simp
      have "?ts ! i \<in> set (drop i ?ts)" using split by simp
      then have rng: "delay_length (sample_rate s) (?ts ! i) < 2 ^ 31"
        using "1.prems"(5) pos by blast
      let ?sz = "delay_length (sample_rate s) (?ts ! i)"
      have conv: "float_to_int (f32_div (f32_of_nat (sample_rate s)) (?ts ! i)) = Inr ?sz"
        using pos rng by (rule float_to_int_quotient)
      let ?n = "nat (num_combs s)"
      have room: "?n < length (combs s)"
        using "1.prems"(4) pos by (simp add: split active_tunings_def)
      let ?s1 = "s\<lparr>combs := (combs s)[?n := Some \<lparr>store = 0, buffer = None, size_c = 0, idx = 0\<rparr>],
                    num_combs := num_combs s + 1\<rparr>"
      let ?s2 = "?s1\<lparr>combs := (combs ?s1)[?n := Some \<lparr>store = 0,
                      buffer = Some (replicate (nat ?sz) 0), size_c = ?sz, idx = 0\<rparr>]\<rparr>"
      have room': "\<not> (num_combs s < 0 \<or> int (length (combs s)) \<le> num_combs s)"
        using room "1.prems"(3) by linarith
      have step: "setup_loop alloc h i k s = setup_loop alloc h (i + 1) (k + 2) ?s2"
        using True len act conv room' "1.prems"(1)
        by (simp add: setup_loop.simps [of alloc h i k s] Let_def)
      let ?rest = "active_tunings (drop (i + 1) ?ts)"
      have ih: "setup_loop alloc h (i + 1) (k + 2) ?s2 =
           Inr (1, ?s2\<lparr>combs := take (nat (num_combs ?s2)) (combs ?s2)
                        @ map (\<lambda>f. Some (fresh_comb (delay_length (sample_rate ?s2) f))) ?rest
                        @ drop (nat (num_combs ?s2) + length ?rest) (combs ?s2),
                      num_combs := num_combs ?s2 + int (length ?rest)\<rparr>)"
      proof (rule "1.IH"(2) [OF True _ act conv _ _ refl refl])
        show "\<not> length ?ts \<le> i" using len by simp
        show "\<not> \<not> alloc k" using "1.prems"(1) by simp
        show "\<not> (num_combs s < 0 \<or> int (length (combs s)) \<le> num_combs s)"
          by (rule room')
        show "\<not> \<not> alloc (k + 1)" using "1.prems"(1) by simp
        show "\<forall>k. alloc k" by fact
        show "length ?ts = COMB_COUNT" by fact
        show "0 \<le> num_combs ?s2" using "1.prems"(3) by simp
        show "nat (num_combs ?s2) + length (active_tunings (drop (i + 1) ?ts)) \<le> length (combs ?s2)"
          using "1.prems"(3,4) pos by (simp add: split active_tunings_def nat_add_distrib)
        show "\<forall>f\<in>set (drop (i + 1) ?ts). 0 < f \<longrightarrow> delay_length (sample_rate ?s2) f < 2 ^ 31"
          using "1.prems"(5) split by simp
        show "i + 1 \<le> COMB_COUNT" using True by simp
      qed
      have n1: "nat (num_combs s + 1) = Suc ?n" using "1.prems"(3) by simp
      have tk1: "take (Suc ?n) ((combs s)[?n := Some (fresh_comb ?sz)]) = take ?n (combs s) @ [Some (fresh_comb ?sz)]"
        using room by (simp add: take_Suc_conv_app_nth)
      show ?thesis
        unfolding step ih
        using pos room "1.prems"(3)
        by (simp add: split active_tunings_def n1 tk1 fresh_comb_def [symmetric])
    qed
  qed
qed

lemma active_tunings_padded:
  "active_tunings (ts @ replicate k 0) = active_tunings ts"
  by (simp add: active_tunings_def)

text \<open>
  Claim C8. A list of up to eleven tunings fills the first tuning ports, the ports left
  over being at 0. When every allocation succeeds and the bank is empty, activation
  returns with a bank of exactly one fresh filter per tuning above zero, in slot order;
  a tuning at or below zero contributes none. Each quotient of sample rate and tuning
  in use fits an \<^verbatim>\<open>int\<close>.
\<close>

theorem activate_builds_active_filters:
  assumes "\<forall>k. alloc k"
    and "length ts \<le> COMB_COUNT"
    and "ctrl_tunings h = ts @ replicate (COMB_COUNT - length ts) 0"
    and "length (combs s) = COMB_COUNT"
    and "num_combs s = 0"
    and "\<forall>f \<in> set ts. 0 < f \<longrightarrow> delay_length (sample_rate s) f < 2 ^ 31"
  shows "\<exists>s'. symp_activate alloc h s = Inr ([], s') \<and>
           bank s' = map (\<lambda>f. Some (fresh_comb (delay_length (sample_rate s) f)))
                       (active_tunings ts) \<and>
           num_combs s' = int (length (filter (\<lambda>f. 0 < f) ts))"
proof -
  have len: "length (ctrl_tunings h) = COMB_COUNT"
    using assms(2,3) by simp
  have act: "active_tunings (ctrl_tunings h) = active_tunings ts"
    using assms(3) by (simp add: active_tunings_padded)
  have "length (active_tunings ts) \<le> COMB_COUNT"
    using length_active_tunings [of ts] assms(2) by simp
  then have room: "nat (num_combs s) + length (active_tunings (drop 0 (ctrl_tunings h))) \<le> length (combs s)"
    using assms(4,5) act by simp
  have rng: "\<forall>f \<in> set (drop 0 (ctrl_tunings h)). 0 < f \<longrightarrow> delay_length (sample_rate s) f < 2 ^ 31"
    using assms(3,6) by auto
  have "setup_loop alloc h 0 0 s =
          Inr (1, s\<lparr>combs := take (nat (num_combs s)) (combs s)
                        @ map (\<lambda>f. Some (fresh_comb (delay_length (sample_rate s) f)))
                            (active_tunings (drop 0 (ctrl_tunings h)))
                        @ drop (nat (num_combs s) + length (active_tunings (drop 0 (ctrl_tunings h)))) (combs s),
                      num_combs := num_combs s + int (length (active_tunings (drop 0 (ctrl_tunings h))))\<rparr>)"
    using assms(1) len _ room rng by (rule setup_loop_all_alloc) (simp_all add: assms(5))
  then show ?thesis
    using assms(5) act
    by (simp add: symp_activate_def symp_setup_combs_def bank_def active_tunings_def)
qed

theorem activate_builds_active_filters_witness:
  "\<exists>s'. symp_activate always two_strings (fresh_symp 48000) = Inr ([], s') \<and>
      bank s' = [Some \<lparr>store = 0, buffer = Some [0, 0], size_c = 2, idx = 0\<rparr>,
                 Some \<lparr>store = 0, buffer = Some [0, 0, 0], size_c = 3, idx = 0\<rparr>] \<and>
      num_combs s' = 2"
proof -
  have pad: "[24000, 0, 16000, - 1] @ replicate (11 - 4) 0 = [24000, 0, 16000, - 1, 0, 0, 0, 0, 0, 0, 0::real]"
    by (simp add: eval_nat_numeral)
  show ?thesis
    using activate_builds_active_filters [of always "[24000, 0, 16000, - 1]" two_strings "fresh_symp 48000"] pad
    by (simp add: always_def two_strings_def fresh_symp_def COMB_COUNT_def active_tunings_def
          fresh_comb_def delay_length_eval numeral_2_eq_2 numeral_3_eq_3)
qed

text \<open>
  Claim C9. Activation appends: from a state whose bank holds \<open>k\<close> filters, an
  activation with \<open>m\<close> tunings above zero, \<open>k + m \<le> 11\<close>, returns with a bank of
  \<open>k + m\<close> filters, the \<open>k\<close> old ones unchanged in front and the \<open>m\<close> fresh ones behind.
\<close>

theorem activate_appends:
  assumes "\<forall>k. alloc k"
    and "length (ctrl_tunings h) = COMB_COUNT"
    and "length (combs s) = COMB_COUNT"
    and "0 \<le> num_combs s"
    and "nat (num_combs s) + length (active_tunings (ctrl_tunings h)) \<le> COMB_COUNT"
    and "\<forall>f \<in> set (ctrl_tunings h). 0 < f \<longrightarrow> delay_length (sample_rate s) f < 2 ^ 31"
  shows "\<exists>s'. symp_activate alloc h s = Inr ([], s') \<and>
           bank s' = bank s @ map (\<lambda>f. Some (fresh_comb (delay_length (sample_rate s) f)))
                       (active_tunings (ctrl_tunings h)) \<and>
           num_combs s' = num_combs s + int (length (active_tunings (ctrl_tunings h)))"
proof -
  have "nat (num_combs s) \<le> length (combs s)"
    using assms(3,5) by simp
  with assms show ?thesis
    using setup_loop_all_alloc [of alloc h s 0 0]
    by (simp add: symp_activate_def symp_setup_combs_def bank_def nat_add_distrib)
qed

theorem activate_appends_witness:
  "\<exists>s'. symp_activate always two_strings two_combs = Inr ([], s') \<and>
      bank s' = [Some \<lparr>store = 0, buffer = Some [0, 0], size_c = 2, idx = 0\<rparr>,
                 Some \<lparr>store = 0, buffer = Some [0, 0, 0], size_c = 3, idx = 0\<rparr>,
                 Some \<lparr>store = 0, buffer = Some [0, 0], size_c = 2, idx = 0\<rparr>,
                 Some \<lparr>store = 0, buffer = Some [0, 0, 0], size_c = 3, idx = 0\<rparr>] \<and>
      num_combs s' = 4"
  using activate_appends [of always two_strings two_combs]
  by (simp add: always_def two_strings_def two_combs_def COMB_COUNT_def active_tunings_def
        fresh_comb_def delay_length_eval bank_def numeral_2_eq_2 numeral_3_eq_3)

text \<open>
  Claim C4, as the code has it. When activation returns, every filter it has built for a
  tuning \<open>f\<close> above zero has as \<open>size\<close> the binary32 quotient of sample rate and \<open>f\<close>
  with its fractional part discarded, and a zeroed buffer of that many samples. For a
  sample rate and a quotient below \<open>2 ^ 24\<close> that size is \<open>\<lfloor>rate / f\<rfloor>\<close> or one more (one
  more when the quotient rounds up to the next integer), and it is at least 1 when \<open>f\<close>
  does not exceed the sample rate.
\<close>

theorem activate_delay_lengths:
  assumes "\<forall>k. alloc k"
    and "length (ctrl_tunings h) = COMB_COUNT"
    and "length (combs s) = COMB_COUNT"
    and "0 \<le> num_combs s"
    and "nat (num_combs s) + length (active_tunings (ctrl_tunings h)) \<le> COMB_COUNT"
    and "\<forall>f \<in> set (ctrl_tunings h). 0 < f \<longrightarrow> delay_length (sample_rate s) f < 2 ^ 31"
  shows "\<exists>s'. symp_activate alloc h s = Inr ([], s') \<and>
           list_all2
             (\<lambda>c f. \<exists>cb. c = Some cb \<and>
                       size_c cb = \<lfloor>f32_div (f32_of_nat (sample_rate s)) f\<rfloor> \<and>
                       buffer cb = Some (replicate (nat (size_c cb)) 0) \<and>
                       (sample_rate s < 2 ^ 24 \<and> real (sample_rate s) / f < 2 ^ 24 \<longrightarrow>
                          \<lfloor>real (sample_rate s) / f\<rfloor> \<le> size_c cb \<and>
                          size_c cb \<le> \<lfloor>real (sample_rate s) / f\<rfloor> + 1) \<and>
                       (sample_rate s < 2 ^ 24 \<and> f \<le> real (sample_rate s) \<longrightarrow> 1 \<le> size_c cb))
             (drop (nat (num_combs s)) (bank s')) (active_tunings (ctrl_tunings h))"
proof -
  let ?ts = "active_tunings (ctrl_tunings h)"
  let ?new = "map (\<lambda>f. Some (fresh_comb (delay_length (sample_rate s) f))) ?ts"
  let ?P = "\<lambda>c f. \<exists>cb. c = Some cb \<and>
                       size_c cb = \<lfloor>f32_div (f32_of_nat (sample_rate s)) f\<rfloor> \<and>
                       buffer cb = Some (replicate (nat (size_c cb)) 0) \<and>
                       (sample_rate s < 2 ^ 24 \<and> real (sample_rate s) / f < 2 ^ 24 \<longrightarrow>
                          \<lfloor>real (sample_rate s) / f\<rfloor> \<le> size_c cb \<and>
                          size_c cb \<le> \<lfloor>real (sample_rate s) / f\<rfloor> + 1) \<and>
                       (sample_rate s < 2 ^ 24 \<and> f \<le> real (sample_rate s) \<longrightarrow> 1 \<le> size_c cb)"
  have le: "nat (num_combs s) \<le> length (combs s)"
    using assms(3,5) by simp
  have "setup_loop alloc h 0 0 s =
          Inr (1, s\<lparr>combs := take (nat (num_combs s)) (combs s) @ ?new
                        @ drop (nat (num_combs s) + length ?ts) (combs s),
                     num_combs := num_combs s + int (length ?ts)\<rparr>)"
    using assms le setup_loop_all_alloc [of alloc h s 0 0] by simp
  then obtain s' where act: "symp_activate alloc h s = Inr ([], s')"
    and bk: "bank s' = bank s @ ?new"
    using le assms(4)
    by (simp add: symp_activate_def symp_setup_combs_def bank_def nat_add_distrib)
  have "length (bank s) = nat (num_combs s)"
    using le by (simp add: bank_def)
  then have dr: "drop (nat (num_combs s)) (bank s') = ?new"
    using bk by simp
  have one: "?P (Some (fresh_comb (delay_length (sample_rate s) f))) f" if "0 < f" for f
  proof -
    have pos: "1 \<le> delay_length (sample_rate s) f"
      if "sample_rate s < 2 ^ 24" and "f \<le> real (sample_rate s)"
    proof -
      have "f32_of_nat (sample_rate s) = real (sample_rate s)"
        unfolding f32_of_nat_def using that(1) by (rule f32_round_nat)
      with that(2) \<open>0 < f\<close> show ?thesis by (simp add: delay_length_pos)
    qed
    show ?thesis
      using delay_length_bounds [OF \<open>0 < f\<close>, of "sample_rate s"] pos
      by (simp add: fresh_comb_def delay_length_def [symmetric])
  qed
  have "\<forall>f \<in> set ?ts. ?P (Some (fresh_comb (delay_length (sample_rate s) f))) f"
  proof
    fix f
    assume "f \<in> set ?ts"
    then have "0 < f" by (simp add: active_tunings_def)
    then show "?P (Some (fresh_comb (delay_length (sample_rate s) f))) f" by (rule one)
  qed
  then have "list_all2 ?P ?new ?ts"
    by (simp only: list_all2_map1 list_all2_same)
  then have "list_all2 ?P (drop (nat (num_combs s)) (bank s')) ?ts"
    by (simp only: dr)
  with act show ?thesis by blast
qed

theorem activate_delay_lengths_witness:
  "\<exists>s'. symp_activate always
           (high_string\<lparr>ctrl_tunings := [16421237 / 8192, 0, 88200, - 1, 0, 0, 0, 0, 0, 0, 0]\<rparr>)
           (fresh_symp 44100)
         = Inr ([], s') \<and>
      map (map_option size_c) (bank s') = [Some 22, Some 0] \<and>
      \<lfloor>44100 / (16421237 / 8192) :: real\<rfloor> = 21"
proof -
  let ?h = "high_string\<lparr>ctrl_tunings := [16421237 / 8192, 0, 88200, - 1, 0, 0, 0, 0, 0, 0, 0]\<rparr>"
  let ?s = "fresh_symp 44100"
  from activate_delay_lengths [of always ?h ?s]
  obtain s' where act: "symp_activate always ?h ?s = Inr ([], s')"
    and l: "list_all2
             (\<lambda>c f. \<exists>cb. c = Some cb \<and>
                       size_c cb = \<lfloor>f32_div (f32_of_nat (sample_rate ?s)) f\<rfloor> \<and>
                       buffer cb = Some (replicate (nat (size_c cb)) 0) \<and>
                       (sample_rate ?s < 2 ^ 24 \<and> real (sample_rate ?s) / f < 2 ^ 24 \<longrightarrow>
                          \<lfloor>real (sample_rate ?s) / f\<rfloor> \<le> size_c cb \<and>
                          size_c cb \<le> \<lfloor>real (sample_rate ?s) / f\<rfloor> + 1) \<and>
                       (sample_rate ?s < 2 ^ 24 \<and> f \<le> real (sample_rate ?s) \<longrightarrow> 1 \<le> size_c cb))
             (drop (nat (num_combs ?s)) (bank s')) (active_tunings (ctrl_tunings ?h))"
    by (auto simp: always_def high_string_def fresh_symp_def COMB_COUNT_def active_tunings_def
          delay_length_eval)
  from l have "map (map_option size_c) (bank s') = [Some 22, Some 0]"
    by (auto simp: fresh_symp_def high_string_def active_tunings_def list_all2_Cons2
          delay_length_def [symmetric] delay_length_eval)
  with act show ?thesis by (intro exI [of _ s']) simp
qed

text \<open>
  Activation keeps the bank well formed when no tuning in use exceeds the sample rate.
\<close>

lemma fresh_comb_ok: "1 \<le> sz \<Longrightarrow> comb_ok (fresh_comb sz)"
  by (simp add: comb_ok_def fresh_comb_def)

lemma activate_bank_ok:
  assumes "\<forall>k. alloc k"
    and "length (ctrl_tunings h) = COMB_COUNT"
    and "length (combs s) = COMB_COUNT"
    and "0 \<le> num_combs s"
    and "nat (num_combs s) + length (active_tunings (ctrl_tunings h)) \<le> COMB_COUNT"
    and "\<forall>f \<in> set (ctrl_tunings h). 0 < f \<longrightarrow>
           f \<le> f32_of_nat (sample_rate s) \<and> delay_length (sample_rate s) f < 2 ^ 31"
    and "bank_ok (num_combs s) (combs s)"
  shows "\<exists>s'. symp_activate alloc h s = Inr ([], s') \<and> bank_ok (num_combs s') (combs s')"
proof -
  let ?ts = "active_tunings (ctrl_tunings h)"
  let ?new = "map (\<lambda>f. Some (fresh_comb (delay_length (sample_rate s) f))) ?ts"
  let ?k = "nat (num_combs s)"
  let ?cs = "take ?k (combs s) @ ?new @ drop (?k + length ?ts) (combs s)"
  have le: "?k \<le> length (combs s)"
    using assms(3,5) by simp
  have run: "setup_loop alloc h 0 0 s =
          Inr (1, s\<lparr>combs := ?cs, num_combs := num_combs s + int (length ?ts)\<rparr>)"
    using assms le setup_loop_all_alloc [of alloc h s 0 0] by simp
  have "list_all slot_ok ?new"
    using assms(6) delay_length_pos [of _ "sample_rate s"]
    by (auto simp: list_all_iff active_tunings_def slot_ok_def intro!: fresh_comb_ok)
  moreover have "list_all slot_ok (take ?k (combs s))"
    using assms(7) by (simp add: bank_ok_def)
  moreover have "take (?k + length ?ts) ?cs = take ?k (combs s) @ ?new"
    using le by simp
  moreover have "nat (num_combs s + int (length ?ts)) = ?k + length ?ts"
    using assms(4) by (simp add: nat_add_distrib)
  moreover have "length ?cs = length (combs s)"
    using le assms(3,5) by simp
  ultimately have "bank_ok (num_combs s + int (length ?ts)) ?cs"
    using assms(3,5) by (simp add: bank_ok_def)
  with run show ?thesis
    by (simp add: symp_activate_def symp_setup_combs_def)
qed

lemma fresh_symp_bank_ok: "bank_ok (num_combs (fresh_symp r)) (combs (fresh_symp r))"
  by (simp add: bank_ok_def fresh_symp_def)

text \<open>
  A tuning above the sample rate: the activation succeeds and the bank holds a filter
  with \<open>size = 0\<close> and an empty buffer.
\<close>

theorem activate_zero_delay_counterexample:
  "symp_activate always high_string (fresh_symp 44100) = Inr ([], zero_delay) \<and>
   bank zero_delay = [Some \<lparr>store = 0, buffer = Some [], size_c = 0, idx = 0\<rparr>]"
  by (simp add: setup_eval high_string_def fresh_symp_def zero_delay_def bank_def)

text \<open>Processing that bank reads outside the empty buffer.\<close>

lemma zero_delay_faults:
  "symp_run_effect high_string zero_delay 4 False = Inl Out_Of_Bounds"
  by (simp add: run_eval high_string_def zero_delay_def)

text \<open>
  Claim C3 fails on the code. The fourth allocation of an activation with two strings,
  the buffer of the second comb, fails: \<^verbatim>\<open>symp_setup_combs\<close> returns \<open>-1\<close>, which the test
  \<^verbatim>\<open>!symp_setup_combs(symp)\<close> in \<^verbatim>\<open>symp_activate\<close> does not take for a failure, so nothing
  is printed and nothing is returned; both combs stay in the bank, the second without a
  buffer, and the next block dereferences the null buffer.
\<close>

theorem half_built_bank_stays_active:
  "symp_instantiate True 48000 = Some (fresh_symp 48000) \<and>
   symp_setup_combs (first_calls 3) two_strings (fresh_symp 48000) = Inr (- 1, half_built) \<and>
   symp_activate (first_calls 3) two_strings (fresh_symp 48000) = Inr ([], half_built) \<and>
   bank half_built = [Some \<lparr>store = 0, buffer = Some [0, 0], size_c = 2, idx = 0\<rparr>,
                      Some \<lparr>store = 0, buffer = None, size_c = 0, idx = 0\<rparr>] \<and>
   symp_run_effect two_strings half_built 4 False = Inl Null_Dereference"
proof -
  have a: "symp_setup_combs (first_calls 3) two_strings (fresh_symp 48000) = Inr (- 1, half_built)"
    by (simp add: setup_eval two_strings_def fresh_symp_def half_built_def)
  then have b: "symp_activate (first_calls 3) two_strings (fresh_symp 48000) = Inr ([], half_built)"
    by (simp add: symp_activate_def)
  have c: "bank half_built = [Some \<lparr>store = 0, buffer = Some [0, 0], size_c = 2, idx = 0\<rparr>,
                      Some \<lparr>store = 0, buffer = None, size_c = 0, idx = 0\<rparr>]"
    by (simp add: bank_def half_built_def numeral_2_eq_2)
  have d: "symp_run_effect two_strings half_built 4 False = Inl Null_Dereference"
    by (simp add: run_eval two_strings_def half_built_def)
  from a b c d symp_instantiate_fresh [of 48000] show ?thesis by simp
qed

text \<open>The message of \<^verbatim>\<open>symp_activate\<close> is never printed: the value returned is never 0.\<close>

lemma setup_loop_result:
  "setup_loop alloc h i k s = Inr (r, s') \<Longrightarrow> r = 1 \<or> r = - 1"
proof (induction alloc h i k s rule: setup_loop.induct)
  case (1 alloc h i k s)
  show ?case
  proof (cases "i < COMB_COUNT")
    case False
    with "1.prems" show ?thesis by (simp add: setup_loop.simps [of alloc h i k s])
  next
    case True
    with "1.prems" "1.IH" show ?thesis
      by (subst (asm) setup_loop.simps)
         (auto simp: Let_def split: if_splits sum.splits)
  qed
qed

lemma activate_prints_nothing:
  "symp_activate alloc h s = Inr (msgs, s') \<Longrightarrow> msgs = []"
  by (auto simp: symp_activate_def symp_setup_combs_def split: sum.splits prod.splits
           dest: setup_loop_result)

text \<open>Deactivation empties the bank, so the next activation builds it anew.\<close>

lemma cleanup_loop_keeps:
  "cleanup_loop i s = Inr s' \<Longrightarrow>
   num_combs s' = num_combs s \<and> length (combs s') = length (combs s) \<and>
   sample_rate s' = sample_rate s"
proof (induction i s rule: cleanup_loop.induct)
  case (1 i s)
  show ?case
  proof (cases "int i < num_combs s")
    case False
    with "1.prems" show ?thesis by (simp add: cleanup_loop.simps [of i s])
  next
    case True
    with "1.prems" "1.IH" show ?thesis
      by (subst (asm) cleanup_loop.simps) (auto split: if_splits)
  qed
qed

lemma deactivate_empties:
  "symp_deactivate s = Inr s' \<Longrightarrow>
   num_combs s' = 0 \<and> bank s' = [] \<and> length (combs s') = length (combs s)"
  by (auto simp: symp_deactivate_def symp_cleanup_combs_def bank_def split: sum.splits
           dest: cleanup_loop_keeps)

section \<open>Processing a block\<close>

text \<open>
  A block returns whenever the bank is well formed and the three audio buffers hold
  the block; the bank stays well formed.
\<close>

lemma bank_ok_nth:
  assumes "bank_ok n cs" and "int c < n"
  shows "c < length cs \<and> (\<exists>cb. cs ! c = Some cb \<and> comb_ok cb)"
proof -
  have c: "c < nat n" using assms(2) by simp
  then have len: "c < length cs" using assms(1) by (simp add: bank_ok_def)
  have "c < length (take (nat n) cs)" using c len by simp
  then have "slot_ok (take (nat n) cs ! c)"
    using assms(1) by (simp add: bank_ok_def list_all_length)
  then have "slot_ok (cs ! c)" using c by simp
  with len show ?thesis by (cases "cs ! c") (simp_all add: slot_ok_def)
qed

lemma bank_ok_update:
  assumes "bank_ok n cs" and "comb_ok cb"
  shows "bank_ok n (cs[c := Some cb])"
proof -
  have "set ((take (nat n) cs)[c := Some cb]) \<subseteq> insert (Some cb) (set (take (nat n) cs))"
    by (rule set_update_subset_insert)
  moreover have "slot_ok (Some cb)" using assms(2) by (simp add: slot_ok_def)
  ultimately have "list_all slot_ok ((take (nat n) cs)[c := Some cb])"
    using assms(1) by (auto simp: bank_ok_def list_all_iff)
  then show ?thesis
    using assms(1) by (simp add: bank_ok_def take_update_swap)
qed

lemma combs_loop_returns:
  "bank_ok n cs \<Longrightarrow>
   \<exists>out' cs'. combs_loop inp d1 d2 fb n c cs out = Inr (out', cs') \<and> bank_ok n cs' \<and>
              length cs' = length cs"
proof (induction inp d1 d2 fb n c cs out rule: combs_loop.induct)
  case (1 inp d1 d2 fb n c cs out)
  show ?case
  proof (cases "int c < n")
    case False
    with "1.prems" show ?thesis by (simp add: combs_loop.simps [of _ _ _ _ n c])
  next
    case True
    with "1.prems" obtain cb where c: "c < length cs" "cs ! c = Some cb" "comb_ok cb"
      using bank_ok_nth by blast
    from comb_step_keeps_ok [OF c(3), of inp d1 d2 fb]
    obtain y cb' where st: "comb_step inp d1 d2 fb cb = Inr (y, cb')" "comb_ok cb'"
      by blast
    have "bank_ok n (cs[c := Some cb'])"
      using "1.prems" st(2) by (rule bank_ok_update)
    from "1.IH" [OF True _ c(2) st(1) refl this] c(1)
    obtain out' cs' where "combs_loop inp d1 d2 fb n (c + 1) (cs[c := Some cb']) (out + y) = Inr (out', cs')"
      "bank_ok n cs'" "length cs' = length cs"
      by auto
    with True c st show ?thesis
      by (simp add: combs_loop.simps [of _ _ _ _ n c])
  qed
qed

lemma write_out_returns:
  "p + Suc k \<le> length buf \<Longrightarrow>
   \<exists>buf' p'. write_out add g w out buf p = Inr (buf', p') \<and> length buf' = length buf \<and>
             p' + k \<le> length buf'"
  by (auto simp: write_out_def)

lemma sample_loop_returns:
  assumes "bank_ok n cs" and "N \<le> length inp"
    and "p1 + (N - i) \<le> length o1" and "p2 + (N - i) \<le> length o2"
  shows "\<exists>cs' r1 r2. sample_loop N add g ig wl wr d1 d2 fb n inp i p1 p2 cs o1 o2 = Inr (cs', r1, r2) \<and>
           bank_ok n cs' \<and> length cs' = length cs \<and> length r1 = length o1 \<and> length r2 = length o2"
  using assms
proof (induction k \<equiv> "N - i" arbitrary: i p1 p2 cs o1 o2)
  case 0
  then show ?case by (simp add: sample_loop.simps [of N _ _ _ _ _ _ _ _ _ _ i])
next
  case (Suc k)
  then have lt: "i < N" by simp
  with Suc.prems have inb: "\<not> length inp \<le> i" by simp
  from combs_loop_returns [OF Suc.prems(1), of "inp ! i * ig" d1 d2 fb 0 0]
  obtain out cs1 where cl: "combs_loop (inp ! i * ig) d1 d2 fb n 0 cs 0 = Inr (out, cs1)"
    and ok1: "bank_ok n cs1" and len1: "length cs1 = length cs"
    by blast
  have k: "N - i = Suc k" using Suc.hyps(2) by simp
  from write_out_returns [of p1 k o1 add g wl out] Suc.prems(3) k
  obtain b1 q1 where w1: "write_out add g wl out o1 p1 = Inr (b1, q1)"
    and l1: "length b1 = length o1" "q1 + k \<le> length b1"
    by auto
  from write_out_returns [of p2 k o2 add g wr out] Suc.prems(4) k
  obtain b2 q2 where w2: "write_out add g wr out o2 p2 = Inr (b2, q2)"
    and l2: "length b2 = length o2" "q2 + k \<le> length b2"
    by auto
  have k': "k = N - (i + 1)" using k by simp
  from Suc.hyps(1) [OF k' ok1 Suc.prems(2), of q1 b1 q2 b2] l1 l2 k'
  obtain cs' r1 r2 where
    "sample_loop N add g ig wl wr d1 d2 fb n inp (i + 1) q1 q2 cs1 b1 b2 = Inr (cs', r1, r2)"
    "bank_ok n cs'" "length cs' = length cs1" "length r1 = length b1" "length r2 = length b2"
    by auto
  with lt inb cl w1 w2 len1 l1 l2 show ?case
    by (simp add: sample_loop.simps [of N _ _ _ _ _ _ _ _ _ _ i])
qed

lemma run_effect_returns:
  assumes "bank_ok (num_combs s) (combs s)"
    and "N \<le> length (audio_input h)"
    and "N \<le> length (audio_output1 h)" and "N \<le> length (audio_output2 h)"
  shows "\<exists>s' o1 o2. symp_run_effect h s N add = Inr (s', o1, o2) \<and>
           bank_ok (num_combs s') (combs s') \<and>
           length o1 = length (audio_output1 h) \<and> length o2 = length (audio_output2 h)"
proof -
  let ?s2 = "refresh h s"
  have "bank_ok (num_combs ?s2) (combs ?s2)"
    using assms(1) by (simp add: refresh_def Let_def)
  from sample_loop_returns [OF this assms(2), of 0 0 "audio_output1 h" 0 "audio_output2 h" add
      "run_adding_gain s" "ctrl_gain_input h" "clamp_wet (ctrl_wet_left h)"
      "clamp_wet (ctrl_wet_right h)" "damp1 ?s2" "damp2 ?s2" "scaled_feedback ?s2"] assms(3,4)
  show ?thesis
    by (auto simp: symp_run_effect_def Let_def)
qed


text \<open>
  Claim C2 fails on the code. A fresh instance caches \<open>feedback = 0\<close> with
  \<open>scaled_feedback = 0\<close>, so a first block with the feedback control at 0 finds the cache
  up to date and runs with the coefficient 0, where \<open>0.96 + 0 * 0.039 = 0.96\<close> is meant:
  the impulse dies after one round, and with the coefficient set to that value the same
  block gives 0.96 at the third sample.
\<close>

theorem fresh_feedback_cache_stale:
  "symp_instantiate True 48000 = Some (fresh_symp 48000) \<and>
   symp_activate always feedback_zero (fresh_symp 48000) = Inr ([], one_comb) \<and>
   symp_run_effect feedback_zero one_comb 3 False =
     Inr (one_comb\<lparr>combs := [Some \<lparr>store = 0, buffer = Some [0], size_c = 1, idx = 0\<rparr>,
               None, None, None, None, None, None, None, None, None, None]\<rparr>,
          [0, 1, 0], [0, 1, 0]) \<and>
   symp_run_effect feedback_zero
       (one_comb\<lparr>scaled_feedback := FEEDBACK_OFFSET + ctrl_feedback feedback_zero * FEEDBACK_RANGE\<rparr>)
       3 False =
     Inr (one_comb\<lparr>combs := [Some \<lparr>store = 0.96, buffer = Some [0.9216], size_c = 1, idx = 0\<rparr>,
               None, None, None, None, None, None, None, None, None, None],
            scaled_feedback := 0.96\<rparr>,
          [0, 1, 0.96], [0, 1, 0.96])"
proof -
  have "symp_run_effect feedback_zero one_comb 3 False =
     Inr (one_comb\<lparr>combs := [Some \<lparr>store = 0, buffer = Some [0], size_c = 1, idx = 0\<rparr>,
               None, None, None, None, None, None, None, None, None, None]\<rparr>,
          [0, 1, 0], [0, 1, 0])"
    by (simp add: run_eval feedback_zero_def one_comb_def)
  moreover have "symp_run_effect feedback_zero
       (one_comb\<lparr>scaled_feedback := FEEDBACK_OFFSET + ctrl_feedback feedback_zero * FEEDBACK_RANGE\<rparr>)
       3 False =
     Inr (one_comb\<lparr>combs := [Some \<lparr>store = 0.96, buffer = Some [0.9216], size_c = 1, idx = 0\<rparr>,
               None, None, None, None, None, None, None, None, None, None],
            scaled_feedback := 0.96\<rparr>,
          [0, 1, 0.96], [0, 1, 0.96])"
    by (simp add: run_eval feedback_zero_def one_comb_def)
  ultimately show ?thesis
    using symp_instantiate_fresh [of 48000] one_comb_reached by simp
qed

text \<open>
  Whenever the cache is consistent, or the control differs from the cached value, the
  coefficient used for the block is \<open>0.96 + feedback * 0.039\<close>, and the cache is
  consistent afterwards.
\<close>

lemma refresh_scaled_feedback:
  assumes "ctrl_feedback h \<noteq> feedback s \<or>
           scaled_feedback s = FEEDBACK_OFFSET + feedback s * FEEDBACK_RANGE"
  shows "scaled_feedback (refresh h s) = FEEDBACK_OFFSET + ctrl_feedback h * FEEDBACK_RANGE"
    and "feedback (refresh h s) = ctrl_feedback h"
  using assms by (auto simp: refresh_def Let_def)

lemma refresh_damping:
  assumes "ctrl_damping h \<noteq> damping s \<or>
           (damp1 s = damping s * DAMPING_RANGE \<and> damp2 s = 1 - damping s * DAMPING_RANGE)"
  shows "damp1 (refresh h s) = ctrl_damping h * DAMPING_RANGE"
    and "damp2 (refresh h s) = 1 - ctrl_damping h * DAMPING_RANGE"
    and "damping (refresh h s) = ctrl_damping h"
  using assms by (auto simp: refresh_def Let_def)

lemma fresh_symp_damping_consistent:
  "damp1 (fresh_symp r) = damping (fresh_symp r) * DAMPING_RANGE \<and>
   damp2 (fresh_symp r) = 1 - damping (fresh_symp r) * DAMPING_RANGE"
  by (simp add: fresh_symp_def)

lemma fresh_symp_feedback_inconsistent:
  "scaled_feedback (fresh_symp r) \<noteq> FEEDBACK_OFFSET + feedback (fresh_symp r) * FEEDBACK_RANGE"
  by (simp add: fresh_symp_def FEEDBACK_OFFSET_def)

text \<open>In add mode a channel whose clamped gain is 0 is never written.\<close>

lemma sample_loop_add_left:
  "sample_loop N add g ig wl wr d1 d2 fb n inp i p1 p2 cs o1 o2 = Inr (cs', r1, r2) \<Longrightarrow>
   add \<Longrightarrow> wl = 0 \<Longrightarrow> r1 = o1"
proof (induction N add g ig wl wr d1 d2 fb n inp i p1 p2 cs o1 o2 rule: sample_loop.induct)
  case (1 N add g ig wl wr d1 d2 fb n inp i p1 p2 cs o1 o2)
  show ?case
  proof (cases "i < N")
    case False
    with "1.prems" show ?thesis by (simp add: sample_loop.simps)
  next
    case True
    with "1.prems" "1.IH" show ?thesis
      by (subst (asm) sample_loop.simps)
         (auto split: if_splits sum.splits prod.splits simp: write_out_def)
  qed
qed

lemma sample_loop_add_right:
  "sample_loop N add g ig wl wr d1 d2 fb n inp i p1 p2 cs o1 o2 = Inr (cs', r1, r2) \<Longrightarrow>
   add \<Longrightarrow> wr = 0 \<Longrightarrow> r2 = o2"
proof (induction N add g ig wl wr d1 d2 fb n inp i p1 p2 cs o1 o2 rule: sample_loop.induct)
  case (1 N add g ig wl wr d1 d2 fb n inp i p1 p2 cs o1 o2)
  show ?case
  proof (cases "i < N")
    case False
    with "1.prems" show ?thesis by (simp add: sample_loop.simps)
  next
    case True
    with "1.prems" "1.IH" show ?thesis
      by (subst (asm) sample_loop.simps)
         (auto split: if_splits sum.splits prod.splits simp: write_out_def)
  qed
qed

text \<open>
  Claim C6. When a block processed in add mode returns, an output buffer whose clamped
  wet gain is exactly 0 is what it was before the call, at every index, whatever the
  input, the other gain, the adding gain and the bank are.
\<close>

theorem run_adding_zero_wet_untouched:
  assumes "symp_run_effect h s N True = Inr (s', o1, o2)"
  shows "(clamp_wet (ctrl_wet_left h) = 0 \<longrightarrow> o1 = audio_output1 h) \<and>
         (clamp_wet (ctrl_wet_right h) = 0 \<longrightarrow> o2 = audio_output2 h)"
  using assms
  by (auto simp: symp_run_effect_def Let_def split: sum.splits
           dest: sample_loop_add_left sample_loop_add_right)

theorem run_adding_zero_wet_untouched_witness:
  "symp_run_effect (two_strings\<lparr>ctrl_wet_left := - 1 / 2, ctrl_wet_right := 2\<rparr>)
       (two_combs\<lparr>run_adding_gain := 1\<rparr>) 4 True =
     Inr (two_combs\<lparr>run_adding_gain := 1, feedback := 1 / 2, scaled_feedback := 1959 / 2000,
            combs := [Some \<lparr>store = 0, buffer = Some [1959 / 2000, 0], size_c = 2, idx = 0\<rparr>,
                      Some \<lparr>store = 1, buffer = Some [1959 / 2000, 0, 0], size_c = 3, idx = 1\<rparr>,
                      None, None, None, None, None, None, None, None, None]\<rparr>,
          audio_output1 two_strings, [9, 9, 10, 10]) \<and>
   clamp_wet (- 1 / 2) = 0 \<and>
   symp_run_effect (two_strings\<lparr>ctrl_wet_left := 3, ctrl_wet_right := 0\<rparr>)
       (two_combs\<lparr>run_adding_gain := 1\<rparr>) 4 True =
     Inr (two_combs\<lparr>run_adding_gain := 1, feedback := 1 / 2, scaled_feedback := 1959 / 2000,
            combs := [Some \<lparr>store = 0, buffer = Some [1959 / 2000, 0], size_c = 2, idx = 0\<rparr>,
                      Some \<lparr>store = 1, buffer = Some [1959 / 2000, 0, 0], size_c = 3, idx = 1\<rparr>,
                      None, None, None, None, None, None, None, None, None]\<rparr>,
          [7, 7, 8, 8], audio_output2 two_strings) \<and>
   clamp_wet 0 = 0"
proof -
  let ?s' = "two_combs\<lparr>run_adding_gain := 1, feedback := 1 / 2, scaled_feedback := 1959 / 2000,
            combs := [Some \<lparr>store = 0, buffer = Some [1959 / 2000, 0], size_c = 2, idx = 0\<rparr>,
                      Some \<lparr>store = 1, buffer = Some [1959 / 2000, 0, 0], size_c = 3, idx = 1\<rparr>,
                      None, None, None, None, None, None, None, None, None]\<rparr>"
  have l: "symp_run_effect (two_strings\<lparr>ctrl_wet_left := - 1 / 2, ctrl_wet_right := 2\<rparr>)
       (two_combs\<lparr>run_adding_gain := 1\<rparr>) 4 True = Inr (?s', [7, 7, 7, 7], [9, 9, 10, 10])"
    by (simp add: run_eval two_strings_def two_combs_def)
  have r: "symp_run_effect (two_strings\<lparr>ctrl_wet_left := 3, ctrl_wet_right := 0\<rparr>)
       (two_combs\<lparr>run_adding_gain := 1\<rparr>) 4 True = Inr (?s', [7, 7, 8, 8], [9, 9, 9, 9])"
    by (simp add: run_eval two_strings_def two_combs_def)
  show ?thesis
    using run_adding_zero_wet_untouched [OF l] run_adding_zero_wet_untouched [OF r] l r
    by (simp add: clamp_wet_def)
qed

text \<open>
  Claim C10. A block is a function of the filters, the cached coefficients and their
  controls' last values, the adding gain, the controls, the three buffers and the mode:
  two runs that agree on these end with the same fault, or with the same output buffers
  and states that agree on the same components.
\<close>

theorem run_effect_deterministic:
  assumes "combs s = combs t" and "num_combs s = num_combs t"
    and "damping s = damping t" and "damp1 s = damp1 t" and "damp2 s = damp2 t"
    and "feedback s = feedback t" and "scaled_feedback s = scaled_feedback t"
    and "run_adding_gain s = run_adding_gain t"
    and "ctrl_feedback h = ctrl_feedback g" and "ctrl_damping h = ctrl_damping g"
    and "ctrl_gain_input h = ctrl_gain_input g"
    and "ctrl_wet_left h = ctrl_wet_left g" and "ctrl_wet_right h = ctrl_wet_right g"
    and "audio_input h = audio_input g"
    and "audio_output1 h = audio_output1 g" and "audio_output2 h = audio_output2 g"
  shows "(case (symp_run_effect h s N add, symp_run_effect g t N add) of
            (Inl f, Inl f') \<Rightarrow> f = f'
          | (Inr (s', o1, o2), Inr (t', r1, r2)) \<Rightarrow>
              o1 = r1 \<and> o2 = r2 \<and>
              combs s' = combs t' \<and> num_combs s' = num_combs t' \<and>
              damping s' = damping t' \<and> damp1 s' = damp1 t' \<and> damp2 s' = damp2 t' \<and>
              feedback s' = feedback t' \<and> scaled_feedback s' = scaled_feedback t' \<and>
              run_adding_gain s' = run_adding_gain t'
          | _ \<Rightarrow> False)"
  using assms
  by (auto simp: symp_run_effect_def refresh_def Let_def split: sum.splits)

theorem run_effect_deterministic_witness:
  "symp_run_effect two_strings two_combs 4 False =
     Inr (two_combs\<lparr>feedback := 1 / 2, scaled_feedback := 1959 / 2000,
            combs := [Some \<lparr>store = 0, buffer = Some [1959 / 2000, 0], size_c = 2, idx = 0\<rparr>,
                      Some \<lparr>store = 1, buffer = Some [1959 / 2000, 0, 0], size_c = 3, idx = 1\<rparr>,
                      None, None, None, None, None, None, None, None, None]\<rparr>,
          [0, 0, 1, 1], [0, 0, 0, 0]) \<and>
   symp_run_effect (two_strings\<lparr>ctrl_tunings := []\<rparr>) (two_combs\<lparr>sample_rate := 44100\<rparr>) 4 False =
     Inr (two_combs\<lparr>feedback := 1 / 2, scaled_feedback := 1959 / 2000, sample_rate := 44100,
            combs := [Some \<lparr>store = 0, buffer = Some [1959 / 2000, 0], size_c = 2, idx = 0\<rparr>,
                      Some \<lparr>store = 1, buffer = Some [1959 / 2000, 0, 0], size_c = 3, idx = 1\<rparr>,
                      None, None, None, None, None, None, None, None, None]\<rparr>,
          [0, 0, 1, 1], [0, 0, 0, 0])"
proof -
  let ?cs = "[Some \<lparr>store = 0, buffer = Some [1959 / 2000, 0], size_c = 2, idx = 0\<rparr>,
                      Some \<lparr>store = 1, buffer = Some [1959 / 2000, 0, 0], size_c = 3, idx = 1\<rparr>,
                      None, None, None, None, None, None, None, None, None]"
  have a: "symp_run_effect two_strings two_combs 4 False =
     Inr (two_combs\<lparr>feedback := 1 / 2, scaled_feedback := 1959 / 2000, combs := ?cs\<rparr>,
          [0, 0, 1, 1], [0, 0, 0, 0])"
    by (simp add: run_eval two_strings_def two_combs_def)
  obtain t' r1 r2 where b: "symp_run_effect (two_strings\<lparr>ctrl_tunings := []\<rparr>) (two_combs\<lparr>sample_rate := 44100\<rparr>) 4 False = Inr (t', r1, r2)"
    and c: "r1 = [0, 0, 1, 1]" "r2 = [0, 0, 0, 0]" "combs t' = ?cs" "num_combs t' = 2"
      "damping t' = 0" "damp1 t' = 0" "damp2 t' = 1" "feedback t' = 1 / 2"
      "scaled_feedback t' = 1959 / 2000" "run_adding_gain t' = 0"
    using run_effect_deterministic [of two_combs "two_combs\<lparr>sample_rate := 44100\<rparr>"
        two_strings "two_strings\<lparr>ctrl_tunings := []\<rparr>" 4 False] a
    by (auto simp: two_combs_def split: sum.splits)
  have "sample_rate t' = 44100"
    using b by (auto simp: symp_run_effect_def refresh_def Let_def split: sum.splits)
  with c have "t' = two_combs\<lparr>feedback := 1 / 2, scaled_feedback := 1959 / 2000, sample_rate := 44100, combs := ?cs\<rparr>"
    by (cases t') (simp add: two_combs_def)
  with a b c show ?thesis by simp
qed

text \<open>
  The block against the specification's output: the run with unit wet gains in replace
  mode yields the bank sums, and the run with any gains and mode writes what
  \<open>spec_output\<close> gives for them.
\<close>

lemma write_out_unit:
  "p < length m \<Longrightarrow> write_out False g 1 out m p = Inr (m[p := out], Suc p)"
  by (simp add: write_out_def)

lemma upd_mid: "length xs = p \<Longrightarrow> (xs @ x # ys)[p := v] = xs @ v # ys"
  by auto

lemma nth_mid: "length xs = p \<Longrightarrow> (xs @ x # ys) ! p = x"
  by auto

lemma write_out_spec_output:
  assumes "p < length m" and "length old = length m"
  shows "write_out add g w out (spec_output add g w p old m) (if add \<and> \<not> 0 < w then q else p) =
           Inr (spec_output add g w (Suc p) old (m[p := out]), (if add \<and> \<not> 0 < w then q else Suc p))"
proof -
  have old: "drop p old = old ! p # drop (Suc p) old"
    using assms by (simp add: Cons_nth_drop_Suc)
  have tk_old: "take (Suc p) old = take p old @ [old ! p]"
    using assms by (simp add: take_Suc_conv_app_nth)
  have tk_m: "take (Suc p) (m[p := out]) = take p m @ [out]"
    using assms by (simp add: take_Suc_conv_app_nth)
  show ?thesis
  proof (cases add)
    case False
    let ?A = "map (\<lambda>x. x * w) (take p m)"
    have len: "length ?A = p" using assms by simp
    have buf: "spec_output add g w p old m = ?A @ old ! p # drop (Suc p) old"
      using False by (simp add: spec_output_def old)
    have "length (spec_output add g w p old m) = length m"
      using assms False by (simp add: spec_output_def)
    then have "\<not> length (spec_output add g w p old m) \<le> p" using assms by simp
    moreover have "(spec_output add g w p old m)[p := out * w] = spec_output add g w (Suc p) old (m[p := out])"
      unfolding buf upd_mid [OF len] using False by (simp add: spec_output_def tk_m)
    ultimately show ?thesis using False by (simp add: write_out_def)
  next
    case True
    show ?thesis
    proof (cases "0 < w")
      case dry: False
      with True show ?thesis by (simp add: write_out_def spec_output_def)
    next
      case wet: True
      let ?A = "map2 (\<lambda>a x. a + x * g * w) (take p old) (take p m)"
      have len: "length ?A = p" using assms by simp
      have buf: "spec_output add g w p old m = ?A @ old ! p # drop (Suc p) old"
        using True wet by (simp add: spec_output_def old)
      have "length (spec_output add g w p old m) = length m"
        using assms True wet by (simp add: spec_output_def)
      then have nl: "\<not> length (spec_output add g w p old m) \<le> p" using assms by simp
      have "(spec_output add g w p old m)[p := old ! p + out * g * w] =
            spec_output add g w (Suc p) old (m[p := out])"
        unfolding buf upd_mid [OF len] using True wet assms
        by (simp add: spec_output_def tk_m tk_old zip_append)
      moreover have "spec_output add g w p old m ! p = old ! p"
        unfolding buf by (rule nth_mid [OF len])
      ultimately show ?thesis using True wet nl by (simp add: write_out_def)
    qed
  qed
qed

lemma sample_loop_spec_output:
  assumes "length old1 = length m1" and "length old2 = length m2"
    and "p1 + (N - i) \<le> length m1" and "p2 + (N - i) \<le> length m2"
  shows "sample_loop N add g ig wl wr d1 d2 fb n inp i
           (if add \<and> \<not> 0 < wl then q1 else p1) (if add \<and> \<not> 0 < wr then q2 else p2) cs
           (spec_output add g wl p1 old1 m1) (spec_output add g wr p2 old2 m2) =
         (case sample_loop N False g ig 1 1 d1 d2 fb n inp i p1 p2 cs m1 m2 of
            Inl f \<Rightarrow> Inl f
          | Inr (cs', m1', m2') \<Rightarrow>
              Inr (cs', spec_output add g wl (p1 + (N - i)) old1 m1',
                        spec_output add g wr (p2 + (N - i)) old2 m2'))"
  using assms
proof (induction k \<equiv> "N - i" arbitrary: i p1 p2 cs m1 m2)
  case 0
  then have "\<not> i < N" by simp
  then show ?case
    by (simp add: sample_loop.simps [of N _ _ _ _ _ _ _ _ _ _ i])
next
  case (Suc k)
  then have lt: "i < N" by simp
  let ?L = "sample_loop N add g ig wl wr d1 d2 fb n inp i
           (if add \<and> \<not> 0 < wl then q1 else p1) (if add \<and> \<not> 0 < wr then q2 else p2) cs
           (spec_output add g wl p1 old1 m1) (spec_output add g wr p2 old2 m2)"
  let ?R = "sample_loop N False g ig 1 1 d1 d2 fb n inp i p1 p2 cs m1 m2"
  show ?case
  proof (cases "length inp \<le> i")
    case True
    with lt show ?thesis
      by (simp add: sample_loop.simps [of N _ _ _ _ _ _ _ _ _ _ i])
  next
    case inb: False
    show ?thesis
    proof (cases "combs_loop (inp ! i * ig) d1 d2 fb n 0 cs 0")
      case (Inl f)
      with lt inb show ?thesis
        by (simp add: sample_loop.simps [of N _ _ _ _ _ _ _ _ _ _ i])
    next
      case (Inr r)
      obtain out cs' where r: "r = (out, cs')" by (cases r)
      have b1: "p1 < length m1" and b2: "p2 < length m2"
        using Suc.prems lt by simp_all
      have w1: "write_out add g wl out (spec_output add g wl p1 old1 m1)
                  (if add \<and> \<not> 0 < wl then q1 else p1) =
                Inr (spec_output add g wl (Suc p1) old1 (m1[p1 := out]),
                     (if add \<and> \<not> 0 < wl then q1 else Suc p1))"
        using b1 Suc.prems(1) by (rule write_out_spec_output)
      have w2: "write_out add g wr out (spec_output add g wr p2 old2 m2)
                  (if add \<and> \<not> 0 < wr then q2 else p2) =
                Inr (spec_output add g wr (Suc p2) old2 (m2[p2 := out]),
                     (if add \<and> \<not> 0 < wr then q2 else Suc p2))"
        using b2 Suc.prems(2) by (rule write_out_spec_output)
      have L: "?L = sample_loop N add g ig wl wr d1 d2 fb n inp (i + 1)
           (if add \<and> \<not> 0 < wl then q1 else Suc p1) (if add \<and> \<not> 0 < wr then q2 else Suc p2) cs'
           (spec_output add g wl (Suc p1) old1 (m1[p1 := out]))
           (spec_output add g wr (Suc p2) old2 (m2[p2 := out]))"
        using lt inb Inr r
        by (subst sample_loop.simps) (simp add: w1 w2)
      have R: "?R = sample_loop N False g ig 1 1 d1 d2 fb n inp (i + 1) (Suc p1) (Suc p2) cs'
                      (m1[p1 := out]) (m2[p2 := out])"
        using lt inb Inr r b1 b2
        by (subst sample_loop.simps) (simp add: write_out_unit)
      have k: "k = N - (i + 1)" using Suc.hyps(2) by simp
      have IH: "sample_loop N add g ig wl wr d1 d2 fb n inp (i + 1)
           (if add \<and> \<not> 0 < wl then q1 else Suc p1) (if add \<and> \<not> 0 < wr then q2 else Suc p2) cs'
           (spec_output add g wl (Suc p1) old1 (m1[p1 := out]))
           (spec_output add g wr (Suc p2) old2 (m2[p2 := out])) =
         (case sample_loop N False g ig 1 1 d1 d2 fb n inp (i + 1) (Suc p1) (Suc p2) cs'
                 (m1[p1 := out]) (m2[p2 := out]) of
            Inl f \<Rightarrow> Inl f
          | Inr (cs'', m1', m2') \<Rightarrow>
              Inr (cs'', spec_output add g wl (Suc p1 + (N - (i + 1))) old1 m1',
                        spec_output add g wr (Suc p2 + (N - (i + 1))) old2 m2'))"
        using Suc.prems lt by (intro Suc.hyps(1) [OF k]) simp_all
      have "Suc p1 + (N - (i + 1)) = p1 + (N - i)" and "Suc p2 + (N - (i + 1)) = p2 + (N - i)"
        using lt by simp_all
      with L R IH show ?thesis by (simp only:)
    qed
  qed
qed


lemma spec_output_start: "spec_output add g w 0 old old = old"
  by (simp add: spec_output_def)

lemma refresh_ignores_wet:
  "refresh (h\<lparr>ctrl_wet_left := a, ctrl_wet_right := b\<rparr>) s = refresh h s"
  by (simp add: refresh_def)

lemma clamp_wet_idem: "clamp_wet (clamp_wet w) = clamp_wet w"
  by (simp add: clamp_wet_def)

text \<open>
  A bank of one comb, unit gains, replace mode: the block writes the taps that
  \<open>comb_feed\<close> collects.
\<close>

lemma combs_loop_one:
  "combs_loop inp d1 d2 fb 1 0 (Some c # rest) 0 =
     (case comb_step inp d1 d2 fb c of
        Inl f \<Rightarrow> Inl f
      | Inr (y, c') \<Rightarrow> Inr (y, Some c' # rest))"
  by (simp add: combs_loop.simps [of _ _ _ _ 1 0] combs_loop.simps [of _ _ _ _ 1 "Suc 0"]
      split: sum.splits)

lemma sample_loop_one_comb:
  assumes "N \<le> length inp"
    and "p1 + (N - i) \<le> length m1" and "p2 + (N - i) \<le> length m2"
  shows "sample_loop N False g 1 1 1 d1 d2 fb 1 inp i p1 p2 (Some c # rest) m1 m2 =
           (case comb_feed (take (N - i) (drop i inp)) d1 d2 fb c of
              Inl f \<Rightarrow> Inl f
            | Inr (ys, c') \<Rightarrow>
                Inr (Some c' # rest,
                     take p1 m1 @ ys @ drop (p1 + (N - i)) m1,
                     take p2 m2 @ ys @ drop (p2 + (N - i)) m2))"
  using assms
proof (induction k \<equiv> "N - i" arbitrary: i p1 p2 c m1 m2)
  case 0
  then show ?case by (simp add: sample_loop.simps [of N _ _ _ _ _ _ _ _ _ _ i])
next
  case (Suc k)
  then have lt: "i < N" by simp
  with Suc.prems have inb: "i < length inp" by simp
  have k: "N - i = Suc k" using Suc.hyps(2) by simp
  have k': "k = N - (i + 1)" using k by simp
  have tk: "take (N - i) (drop i inp) = inp ! i # take (N - (i + 1)) (drop (i + 1) inp)"
    using inb k k' by (simp add: Cons_nth_drop_Suc [symmetric])
  show ?case
  proof (cases "comb_step (inp ! i) d1 d2 fb c")
    case (Inl f)
    with lt inb show ?thesis
      by (simp add: sample_loop.simps [of N _ _ _ _ _ _ _ _ _ _ i] combs_loop_one tk)
  next
    case (Inr r)
    obtain y c1 where r: "r = (y, c1)" by (cases r)
    have b1: "p1 < length m1" and b2: "p2 < length m2"
      using Suc.prems k by simp_all
    have step: "sample_loop N False g 1 1 1 d1 d2 fb 1 inp i p1 p2 (Some c # rest) m1 m2 =
                sample_loop N False g 1 1 1 d1 d2 fb 1 inp (i + 1) (Suc p1) (Suc p2)
                  (Some c1 # rest) (m1[p1 := y]) (m2[p2 := y])"
      using lt inb Inr r b1 b2
      by (subst sample_loop.simps) (simp add: combs_loop_one write_out_unit)
    have ih: "sample_loop N False g 1 1 1 d1 d2 fb 1 inp (i + 1) (Suc p1) (Suc p2)
                  (Some c1 # rest) (m1[p1 := y]) (m2[p2 := y]) =
           (case comb_feed (take (N - (i + 1)) (drop (i + 1) inp)) d1 d2 fb c1 of
              Inl f \<Rightarrow> Inl f
            | Inr (ys, c') \<Rightarrow>
                Inr (Some c' # rest,
                     take (Suc p1) (m1[p1 := y]) @ ys @ drop (Suc p1 + (N - (i + 1))) (m1[p1 := y]),
                     take (Suc p2) (m2[p2 := y]) @ ys @ drop (Suc p2 + (N - (i + 1))) (m2[p2 := y])))"
      using Suc.prems k by (intro Suc.hyps(1) [OF k']) simp_all
    have e1: "take (Suc p1) (m1[p1 := y]) = take p1 m1 @ [y]"
      using b1 by (simp add: take_Suc_conv_app_nth)
    have e2: "take (Suc p2) (m2[p2 := y]) = take p2 m2 @ [y]"
      using b2 by (simp add: take_Suc_conv_app_nth)
    have e3: "Suc p1 + (N - (i + 1)) = p1 + (N - i)" "Suc p2 + (N - (i + 1)) = p2 + (N - i)"
      using lt by simp_all
    have e4: "drop (p1 + (N - i)) (m1[p1 := y]) = drop (p1 + (N - i)) m1"
      "drop (p2 + (N - i)) (m2[p2 := y]) = drop (p2 + (N - i)) m2"
      using k by simp_all
    show ?thesis
      unfolding step ih e1 e2 e3 e4 tk
      using Inr r by (simp split: sum.splits)
  qed
qed

text \<open>
  Claim C7. The gains that reach the output are the wet controls clamped to \<open>[0, 1]\<close>:
  a block gives the same result as with the controls set to their clamped values, and,
  when the output buffers hold the block, its outputs are those the specification gives
  for the clamped gains and the bank sums (the outputs of the same block with unit
  gains in replace mode). The state after the block is that of the unit-gain block:
  nothing of the gains is kept.
\<close>

theorem run_effect_wet_clamped:
  assumes "N \<le> length (audio_output1 h)" and "N \<le> length (audio_output2 h)"
  shows "clamp_wet (ctrl_wet_left h) = max 0 (min 1 (ctrl_wet_left h)) \<and>
         clamp_wet (ctrl_wet_right h) = max 0 (min 1 (ctrl_wet_right h)) \<and>
         symp_run_effect h s N add =
           symp_run_effect (h\<lparr>ctrl_wet_left := clamp_wet (ctrl_wet_left h),
                              ctrl_wet_right := clamp_wet (ctrl_wet_right h)\<rparr>) s N add \<and>
         symp_run_effect h s N add =
           (case symp_run_effect (h\<lparr>ctrl_wet_left := 1, ctrl_wet_right := 1\<rparr>) s N False of
              Inl f \<Rightarrow> Inl f
            | Inr (s', m1, m2) \<Rightarrow>
                Inr (s',
                     spec_output add (run_adding_gain s) (clamp_wet (ctrl_wet_left h)) N
                       (audio_output1 h) m1,
                     spec_output add (run_adding_gain s) (clamp_wet (ctrl_wet_right h)) N
                       (audio_output2 h) m2))"
proof -
  let ?s2 = "refresh h s"
  let ?wl = "clamp_wet (ctrl_wet_left h)" and ?wr = "clamp_wet (ctrl_wet_right h)"
  let ?g = "run_adding_gain s"
  have cl: "clamp_wet w = max 0 (min 1 w)" for w
    by (simp add: clamp_wet_def max_def min_def)
  have idem: "symp_run_effect h s N add =
           symp_run_effect (h\<lparr>ctrl_wet_left := ?wl, ctrl_wet_right := ?wr\<rparr>) s N add"
    by (simp add: symp_run_effect_def refresh_ignores_wet clamp_wet_idem)
  have "sample_loop N add ?g (ctrl_gain_input h) ?wl ?wr (damp1 ?s2) (damp2 ?s2)
          (scaled_feedback ?s2) (num_combs ?s2) (audio_input h) 0
          (if add \<and> \<not> 0 < ?wl then 0 else 0) (if add \<and> \<not> 0 < ?wr then 0 else 0) (combs ?s2)
          (spec_output add ?g ?wl 0 (audio_output1 h) (audio_output1 h))
          (spec_output add ?g ?wr 0 (audio_output2 h) (audio_output2 h)) =
        (case sample_loop N False ?g (ctrl_gain_input h) 1 1 (damp1 ?s2) (damp2 ?s2)
                (scaled_feedback ?s2) (num_combs ?s2) (audio_input h) 0 0 0 (combs ?s2)
                (audio_output1 h) (audio_output2 h) of
           Inl f \<Rightarrow> Inl f
         | Inr (cs', m1', m2') \<Rightarrow>
             Inr (cs', spec_output add ?g ?wl (0 + (N - 0)) (audio_output1 h) m1',
                       spec_output add ?g ?wr (0 + (N - 0)) (audio_output2 h) m2'))"
    using assms by (intro sample_loop_spec_output) simp_all
  then have loop: "sample_loop N add ?g (ctrl_gain_input h) ?wl ?wr (damp1 ?s2) (damp2 ?s2)
          (scaled_feedback ?s2) (num_combs ?s2) (audio_input h) 0 0 0 (combs ?s2)
          (audio_output1 h) (audio_output2 h) =
        (case sample_loop N False ?g (ctrl_gain_input h) 1 1 (damp1 ?s2) (damp2 ?s2)
                (scaled_feedback ?s2) (num_combs ?s2) (audio_input h) 0 0 0 (combs ?s2)
                (audio_output1 h) (audio_output2 h) of
           Inl f \<Rightarrow> Inl f
         | Inr (cs', m1', m2') \<Rightarrow>
             Inr (cs', spec_output add ?g ?wl N (audio_output1 h) m1',
                       spec_output add ?g ?wr N (audio_output2 h) m2'))"
    unfolding add_0 diff_zero if_cancel spec_output_start .
  have unit: "clamp_wet 1 = 1" by (simp add: clamp_wet_def)
  have ref: "symp_run_effect h s N add =
           (case symp_run_effect (h\<lparr>ctrl_wet_left := 1, ctrl_wet_right := 1\<rparr>) s N False of
              Inl f \<Rightarrow> Inl f
            | Inr (s', m1, m2) \<Rightarrow>
                Inr (s', spec_output add ?g ?wl N (audio_output1 h) m1,
                         spec_output add ?g ?wr N (audio_output2 h) m2))"
  proof (cases "sample_loop N False ?g (ctrl_gain_input h) 1 1 (damp1 ?s2) (damp2 ?s2)
                (scaled_feedback ?s2) (num_combs ?s2) (audio_input h) 0 0 0 (combs ?s2)
                (audio_output1 h) (audio_output2 h)")
    case (Inl f)
    then show ?thesis
      by (simp add: symp_run_effect_def Let_def refresh_ignores_wet unit loop)
  next
    case (Inr r)
    obtain cs' m1 m2 where "r = (cs', m1, m2)" by (cases r) auto
    with Inr show ?thesis
      by (simp add: symp_run_effect_def Let_def refresh_ignores_wet unit loop)
  qed
  from cl idem ref show ?thesis by simp
qed


theorem run_effect_wet_clamped_witness:
  "symp_run_effect (two_strings\<lparr>ctrl_wet_left := 1 / 2, ctrl_wet_right := 2\<rparr>) two_combs 4 False =
     Inr (two_combs\<lparr>feedback := 1 / 2, scaled_feedback := 1959 / 2000,
            combs := [Some \<lparr>store = 0, buffer = Some [1959 / 2000, 0], size_c = 2, idx = 0\<rparr>,
                      Some \<lparr>store = 1, buffer = Some [1959 / 2000, 0, 0], size_c = 3, idx = 1\<rparr>,
                      None, None, None, None, None, None, None, None, None]\<rparr>,
          [0, 0, 1 / 2, 1 / 2], [0, 0, 1, 1]) \<and>
   symp_run_effect (two_strings\<lparr>ctrl_wet_left := - 1 / 2, ctrl_wet_right := 2\<rparr>)
       (two_combs\<lparr>run_adding_gain := 3\<rparr>) 4 True =
     Inr (two_combs\<lparr>run_adding_gain := 3, feedback := 1 / 2, scaled_feedback := 1959 / 2000,
            combs := [Some \<lparr>store = 0, buffer = Some [1959 / 2000, 0], size_c = 2, idx = 0\<rparr>,
                      Some \<lparr>store = 1, buffer = Some [1959 / 2000, 0, 0], size_c = 3, idx = 1\<rparr>,
                      None, None, None, None, None, None, None, None, None]\<rparr>,
          [7, 7, 7, 7], [9, 9, 12, 12])"
proof -
  let ?cs = "[Some \<lparr>store = 0, buffer = Some [1959 / 2000, 0], size_c = 2, idx = 0\<rparr>,
                      Some \<lparr>store = 1, buffer = Some [1959 / 2000, 0, 0], size_c = 3, idx = 1\<rparr>,
                      None, None, None, None, None, None, None, None, None]"
  let ?h1 = "two_strings\<lparr>ctrl_wet_left := 1 / 2, ctrl_wet_right := 2\<rparr>"
  let ?h2 = "two_strings\<lparr>ctrl_wet_left := - 1 / 2, ctrl_wet_right := 2\<rparr>"
  have a: "symp_run_effect (?h1\<lparr>ctrl_wet_left := 1, ctrl_wet_right := 1\<rparr>) two_combs 4 False =
     Inr (two_combs\<lparr>feedback := 1 / 2, scaled_feedback := 1959 / 2000, combs := ?cs\<rparr>,
          [0, 0, 1, 1], [0, 0, 1, 1])"
    by (simp add: run_eval two_strings_def two_combs_def)
  have b: "symp_run_effect (?h2\<lparr>ctrl_wet_left := 1, ctrl_wet_right := 1\<rparr>)
       (two_combs\<lparr>run_adding_gain := 3\<rparr>) 4 False =
     Inr (two_combs\<lparr>run_adding_gain := 3, feedback := 1 / 2, scaled_feedback := 1959 / 2000, combs := ?cs\<rparr>,
          [0, 0, 1, 1], [0, 0, 1, 1])"
    by (simp add: run_eval two_strings_def two_combs_def)
  have len1: "4 \<le> length (audio_output1 ?h1)" "4 \<le> length (audio_output2 ?h1)"
    by (simp_all add: two_strings_def)
  have len2: "4 \<le> length (audio_output1 ?h2)" "4 \<le> length (audio_output2 ?h2)"
    by (simp_all add: two_strings_def)
  have "symp_run_effect ?h1 two_combs 4 False =
     Inr (two_combs\<lparr>feedback := 1 / 2, scaled_feedback := 1959 / 2000, combs := ?cs\<rparr>,
          [0, 0, 1 / 2, 1 / 2], [0, 0, 1, 1])"
    unfolding run_effect_wet_clamped [OF len1, of two_combs False, THEN conjunct2, THEN conjunct2, THEN conjunct2] a
    by (simp add: spec_output_def clamp_wet_def two_strings_def)
  moreover have "symp_run_effect ?h2 (two_combs\<lparr>run_adding_gain := 3\<rparr>) 4 True =
     Inr (two_combs\<lparr>run_adding_gain := 3, feedback := 1 / 2, scaled_feedback := 1959 / 2000, combs := ?cs\<rparr>,
          [7, 7, 7, 7], [9, 9, 12, 12])"
    unfolding run_effect_wet_clamped [OF len2, of "two_combs\<lparr>run_adding_gain := 3\<rparr>" True,
        THEN conjunct2, THEN conjunct2, THEN conjunct2] b
    by (simp add: spec_output_def clamp_wet_def two_strings_def)
  ultimately show ?thesis by simp
qed

end
